theory Spec2Isabelle
  imports Complex_Main "HOL-Library.Sublist"
begin

section \<open>Dynamically typed configuration values\<close>

text \<open>
  The scanner works on the tree that the JSON, YAML and TOML decoders hand over as
  \<^verbatim>\<open>map[string]interface{}\<close>. The dynamic types that the type switches of the
  evaluator tell apart are the constructors of \<open>val\<close> below; \<open>VOther\<close> stands for a
  value of any other dynamic type (an unsigned integer, a TOML date, a typed slice).

  A 64-bit float is modelled by the number it denotes, with the three special values
  of IEEE 754. The two zeros are one value \<open>Finite 0\<close>, as they are for every
  comparison the evaluator makes. The evaluator compares floats and does no arithmetic
  on them; the one conversion it makes, from an integer, is a parameter of the model
  (see \<open>go_env\<close>). A 32-bit float is held as the 64-bit float it converts to, which
  is exact.
\<close>

datatype float64 = Finite rat | PosInf | NegInf | NaN

fun f64_lt :: "float64 \<Rightarrow> float64 \<Rightarrow> bool" where
  "f64_lt NaN y = False"
| "f64_lt x NaN = False"
| "f64_lt (Finite a) (Finite b) = (a < b)"
| "f64_lt (Finite a) PosInf = True"
| "f64_lt (Finite a) NegInf = False"
| "f64_lt PosInf y = False"
| "f64_lt NegInf NegInf = False"
| "f64_lt NegInf y = True"

definition f64_gt :: "float64 \<Rightarrow> float64 \<Rightarrow> bool" where
  "f64_gt x y = f64_lt y x"

definition f64_ne0 :: "float64 \<Rightarrow> bool" where
  "f64_ne0 x = (x \<noteq> Finite 0)"

text \<open>
  A Go map is iterated in an order that the language leaves open. A map is an
  association list here and the loops run over it from left to right, so a statement
  proved for every list holds for every order of iteration. The keys of a Go map are
  distinct; no theorem below needs that of the list.
\<close>

datatype val =
    VString string
  | VFloat64 float64
  | VFloat32 float64
  | VInt int
  | VInt64 int
  | VBool bool
  | VNil
  | VSeq "val list"
  | VMap "(string \<times> val) list"
  | VOther nat

type_synonym gomap = "(string \<times> val) list"

record Config =
  Data :: gomap
  FilePath :: string

subsection \<open>Field search\<close>

function hasFieldRecursive :: "gomap \<Rightarrow> string \<Rightarrow> bool" where
  "hasFieldRecursive [] field = False"
| "hasFieldRecursive ((key, v) # rest) field =
     (if key = field then True
      else if (case v of VMap nested \<Rightarrow> hasFieldRecursive nested field | _ \<Rightarrow> False) then True
      else hasFieldRecursive rest field)"
  by pat_completeness auto
termination
  by (relation "measure (\<lambda>(m, f). size (VMap m))") auto

definition HasField :: "Config \<Rightarrow> string \<Rightarrow> bool" where
  "HasField c field = hasFieldRecursive (Data c) field"

function collectFieldValues :: "gomap \<Rightarrow> string \<Rightarrow> val list \<Rightarrow> val list" where
  "collectFieldValues [] field values = values"
| "collectFieldValues ((key, v) # rest) field values =
     collectFieldValues rest field
       (case v of
          VMap nested \<Rightarrow>
            collectFieldValues nested field (if key = field then values @ [v] else values)
        | _ \<Rightarrow> (if key = field then values @ [v] else values))"
  by pat_completeness auto
termination
  by (relation "measure (\<lambda>(m, f, vs). size (VMap m))") auto

definition GetAllFieldValues :: "Config \<Rightarrow> string \<Rightarrow> val list" where
  "GetAllFieldValues c field = collectFieldValues (Data c) field []"

subsection \<open>Content corpus\<close>

fun collectItems :: "val list \<Rightarrow> string \<Rightarrow> string" where
  "collectItems [] content = content"
| "collectItems (item # items) content =
     collectItems items
       (case item of VString str \<Rightarrow> content @ str @ '' '' | _ \<Rightarrow> content)"

function collectContent :: "gomap \<Rightarrow> string \<Rightarrow> string" where
  "collectContent [] content = content"
| "collectContent ((key, v) # rest) content =
     collectContent rest
       (case v of
          VString s \<Rightarrow> content @ s @ '' ''
        | VMap m \<Rightarrow> collectContent m content
        | VSeq items \<Rightarrow> collectItems items content
        | _ \<Rightarrow> content)"
  by pat_completeness auto
termination
  by (relation "measure (\<lambda>(m, c). size (VMap m))") auto

definition GetAllContent :: "Config \<Rightarrow> string" where
  "GetAllContent c = collectContent (Data c) []"

section \<open>Rule schema\<close>

text \<open>
  The fields of the Go structs keep their names behind a prefix for the struct
  (\<open>c_\<close> for Check, \<open>cond_\<close> for Condition, \<open>r_\<close> for Rule, \<open>f_\<close> for Finding), since
  several structs have fields of the same name.
\<close>

record Condition =
  cond_Parameter :: string
  cond_Operator :: string
  cond_Value :: val

record Check =
  c_Type :: string
  c_Parameter :: string
  c_Parameters :: "string list"
  c_Field :: string
  c_Fields :: "string list"
  c_Patterns :: "string list"
  c_Operator :: string
  c_Value :: val
  c_Min :: float64
  c_Max :: float64
  c_Condition :: string
  c_Conditions :: "Condition list"
  c_Require :: string
  c_HasAny :: "string list"
  c_MissingAll :: "string list"
  c_Values :: "val list"
  c_MaxSequences :: int
  c_MaxLength :: int

record Rule =
  r_ID :: string
  r_Name :: string
  r_Severity :: string
  r_Category :: string
  r_Description :: string
  r_Check :: Check
  r_Recommendation :: string
  r_References :: "string list"
  r_Fields :: "string list"

record Finding =
  f_RuleID :: string
  f_Name :: string
  f_Severity :: string
  f_Category :: string
  f_Description :: string
  f_Location :: string
  f_Recommendation :: string
  f_References :: "string list"

section \<open>The Go library functions the evaluator calls\<close>

text \<open>
  Three things come from outside the repository and are parameters of the model:
  \<^item> \<open>MatchString pattern s\<close> is the first result of \<^verbatim>\<open>regexp.MatchString\<close>; the
    evaluator drops the error, and the first result is false when the pattern does
    not compile;
  \<^item> \<open>Sprintf_v v\<close> is \<^verbatim>\<open>fmt.Sprintf("%v", v)\<close>;
  \<^item> \<open>Float64OfInt i\<close> is the conversion \<^verbatim>\<open>float64(i)\<close> of an integer, which
    rounds beyond 53 bits.
  Every theorem below holds for all three, whatever they compute.
\<close>

record go_env =
  MatchString :: "string \<Rightarrow> string \<Rightarrow> bool"
  Sprintf_v :: "val \<Rightarrow> string"
  Float64OfInt :: "int \<Rightarrow> float64"

text \<open>\<^verbatim>\<open>strings.Join\<close>.\<close>

fun Join :: "string list \<Rightarrow> string \<Rightarrow> string" where
  "Join [] sep = []"
| "Join [x] sep = x"
| "Join (x # y # ys) sep = x @ sep @ Join (y # ys) sep"

section \<open>Rule evaluator\<close>

subsection \<open>pattern\_match\<close>

text \<open>
  The three nested loops of \<^verbatim>\<open>checkPatternMatch\<close>, innermost first: over the
  patterns, over the candidate values of a field, over the listed fields. Each returns
  at its first match.
\<close>

fun anyPattern :: "go_env \<Rightarrow> string list \<Rightarrow> string \<Rightarrow> bool" where
  "anyPattern env [] str = False"
| "anyPattern env (pattern # patterns) str =
     (if MatchString env pattern str then True else anyPattern env patterns str)"

fun matchValues :: "go_env \<Rightarrow> string list \<Rightarrow> val list \<Rightarrow> bool" where
  "matchValues env patterns [] = False"
| "matchValues env patterns (v # values) =
     (case v of
        VString str \<Rightarrow>
          (if anyPattern env patterns str then True else matchValues env patterns values)
      | _ \<Rightarrow> matchValues env patterns values)"

fun matchFields :: "go_env \<Rightarrow> string list \<Rightarrow> Config \<Rightarrow> string list \<Rightarrow> bool \<times> string" where
  "matchFields env patterns config [] = (False, [])"
| "matchFields env patterns config (field # rest) =
     (if matchValues env patterns (GetAllFieldValues config field) then (True, field)
      else matchFields env patterns config rest)"

definition checkPatternMatch :: "go_env \<Rightarrow> Rule \<Rightarrow> Config \<Rightarrow> bool \<times> string" where
  "checkPatternMatch env rule config =
     (if length (r_Fields rule) > 0
      then matchFields env (c_Patterns (r_Check rule)) config (r_Fields rule)
      else if anyPattern env (c_Patterns (r_Check rule)) (GetAllContent config)
           then (True, ''config content'')
           else (False, []))"

subsection \<open>numeric\_range\<close>

text \<open>
  \<open>numericLoop\<close> is the loop of \<^verbatim>\<open>checkSingleNumeric\<close> over the candidates, with its
  type switch and its two tests; \<open>numericParams\<close> is the loop of
  \<^verbatim>\<open>checkNumericRange\<close> over the parameters.
\<close>

fun numericLoop :: "go_env \<Rightarrow> string \<Rightarrow> Check \<Rightarrow> val list \<Rightarrow> bool \<times> string" where
  "numericLoop env param check [] = (False, [])"
| "numericLoop env param check (v # values) =
     (case (case v of
              VFloat64 x \<Rightarrow> Some x
            | VFloat32 x \<Rightarrow> Some x
            | VInt i \<Rightarrow> Some (Float64OfInt env i)
            | VInt64 i \<Rightarrow> Some (Float64OfInt env i)
            | _ \<Rightarrow> None) of
        None \<Rightarrow> numericLoop env param check values
      | Some num \<Rightarrow>
          (if (f64_ne0 (c_Min check) \<or> f64_ne0 (c_Max check)) \<and>
              (f64_lt num (c_Min check) \<or> f64_gt num (c_Max check))
           then (True, param)
           else if c_Condition check = ''any_value_exceeds'' \<and>
                   (f64_lt num (c_Min check) \<or> f64_gt num (c_Max check))
           then (True, param)
           else numericLoop env param check values))"

definition checkSingleNumeric :: "go_env \<Rightarrow> string \<Rightarrow> Check \<Rightarrow> Config \<Rightarrow> bool \<times> string" where
  "checkSingleNumeric env param check config =
     (let values = GetAllFieldValues config param in
      if length values = 0 then (False, [])
      else numericLoop env param check values)"

fun numericParams :: "go_env \<Rightarrow> Check \<Rightarrow> Config \<Rightarrow> string list \<Rightarrow> bool \<times> string" where
  "numericParams env check config [] = (False, [])"
| "numericParams env check config (param # params) =
     (case checkSingleNumeric env param check config of
        (violated, loc) \<Rightarrow>
          if violated then (True, loc) else numericParams env check config params)"

definition checkNumericRange :: "go_env \<Rightarrow> Rule \<Rightarrow> Config \<Rightarrow> bool \<times> string" where
  "checkNumericRange env rule config =
     (if c_Parameter (r_Check rule) \<noteq> []
      then checkSingleNumeric env (c_Parameter (r_Check rule)) (r_Check rule) config
      else if length (c_Parameters (r_Check rule)) > 0
      then numericParams env (r_Check rule) config (c_Parameters (r_Check rule))
      else (False, []))"

subsection \<open>missing\_field, missing\_fields, field\_exists\<close>

definition checkMissingField :: "Rule \<Rightarrow> Config \<Rightarrow> bool \<times> string" where
  "checkMissingField rule config =
     (let field = c_Field (r_Check rule) in
      if \<not> HasField config field then (True, field) else (False, []))"

text \<open>
  The loop that returns at the first listed field that is present; it occurs in
  \<^verbatim>\<open>checkMissingFields\<close> and twice in \<^verbatim>\<open>checkConditionalMissing\<close>.
\<close>

fun anyFieldPresent :: "Config \<Rightarrow> string list \<Rightarrow> bool" where
  "anyFieldPresent config [] = False"
| "anyFieldPresent config (field # rest) =
     (if HasField config field then True else anyFieldPresent config rest)"

definition checkMissingFields :: "Rule \<Rightarrow> Config \<Rightarrow> bool \<times> string" where
  "checkMissingFields rule config =
     (if anyFieldPresent config (c_Fields (r_Check rule)) then (False, [])
      else (True, Join (c_Fields (r_Check rule)) '', ''))"

definition checkFieldExists :: "Rule \<Rightarrow> Config \<Rightarrow> bool \<times> string" where
  "checkFieldExists rule config =
     (let field = c_Field (r_Check rule) in
      if HasField config field then (True, field) else (False, []))"

subsection \<open>combined\_conditions\<close>

text \<open>\<open>conditionLoop\<close> is the loop of \<^verbatim>\<open>checkCondition\<close> over the candidates.\<close>

definition toFloat :: "go_env \<Rightarrow> val \<Rightarrow> float64 option" where
  "toFloat env v =
     (case v of
        VFloat64 x \<Rightarrow> Some x
      | VFloat32 x \<Rightarrow> Some x
      | VInt i \<Rightarrow> Some (Float64OfInt env i)
      | VInt64 i \<Rightarrow> Some (Float64OfInt env i)
      | _ \<Rightarrow> None)"

fun conditionLoop :: "go_env \<Rightarrow> Condition \<Rightarrow> val list \<Rightarrow> bool" where
  "conditionLoop env condition [] = False"
| "conditionLoop env condition (v # values) =
     (if cond_Operator condition = ''greater_than'' then
        (case toFloat env v of
           Some num \<Rightarrow>
             (case toFloat env (cond_Value condition) of
                Some threshold \<Rightarrow>
                  (if f64_gt num threshold then True
                   else conditionLoop env condition values)
              | None \<Rightarrow> conditionLoop env condition values)
         | None \<Rightarrow> conditionLoop env condition values)
      else if cond_Operator condition = ''not_equals'' then
        (if Sprintf_v env v \<noteq> Sprintf_v env (cond_Value condition) then True
         else conditionLoop env condition values)
      else if cond_Operator condition = ''equals'' then
        (if Sprintf_v env v = Sprintf_v env (cond_Value condition) then True
         else conditionLoop env condition values)
      else conditionLoop env condition values)"

definition checkCondition :: "go_env \<Rightarrow> Condition \<Rightarrow> Config \<Rightarrow> bool" where
  "checkCondition env condition config =
     (let values = GetAllFieldValues config (cond_Parameter condition) in
      if length values = 0 then False
      else conditionLoop env condition values)"

text \<open>The loop over the conditions carries \<^verbatim>\<open>metCount\<close> and \<^verbatim>\<open>locations\<close>.\<close>

fun countConditions ::
  "go_env \<Rightarrow> Config \<Rightarrow> Condition list \<Rightarrow> nat \<times> string list \<Rightarrow> nat \<times> string list" where
  "countConditions env config [] acc = acc"
| "countConditions env config (condition # conditions) (metCount, locations) =
     countConditions env config conditions
       (if checkCondition env condition config
        then (metCount + 1, locations @ [cond_Parameter condition])
        else (metCount, locations))"

definition checkCombinedConditions :: "go_env \<Rightarrow> Rule \<Rightarrow> Config \<Rightarrow> bool \<times> string" where
  "checkCombinedConditions env rule config =
     (case countConditions env config (c_Conditions (r_Check rule)) (0, []) of
        (metCount, locations) \<Rightarrow>
          (let require = c_Require (r_Check rule) in
           if require = ''all'' then
             (if metCount = length (c_Conditions (r_Check rule))
              then (True, Join locations '', '') else (False, []))
           else if require = ''at_least_two'' then
             (if metCount \<ge> 2 then (True, Join locations '', '') else (False, []))
           else if require = ''both'' then
             (if metCount = 2 then (True, Join locations '', '') else (False, []))
           else if require = ''any'' then
             (if metCount > 0 then (True, Join locations '', '') else (False, []))
           else (False, [])))"

subsection \<open>conditional\_missing\<close>

definition checkConditionalMissing :: "Rule \<Rightarrow> Config \<Rightarrow> bool \<times> string" where
  "checkConditionalMissing rule config =
     (let hasAny = anyFieldPresent config (c_HasAny (r_Check rule)) in
      if \<not> hasAny then (False, [])
      else if anyFieldPresent config (c_MissingAll (r_Check rule)) then (False, [])
      else (True, Join (c_MissingAll (r_Check rule)) '', ''))"

subsection \<open>field\_check\<close>

text \<open>
  The three nested loops of \<^verbatim>\<open>checkFieldCheck\<close>, innermost first: over the forbidden
  values, over the candidates of a field, over the listed fields.
\<close>

fun anyCheckVal :: "go_env \<Rightarrow> string \<Rightarrow> val list \<Rightarrow> bool" where
  "anyCheckVal env valStr [] = False"
| "anyCheckVal env valStr (checkVal # checkVals) =
     (if valStr = Sprintf_v env checkVal then True else anyCheckVal env valStr checkVals)"

fun fieldCheckValues :: "go_env \<Rightarrow> val list \<Rightarrow> val list \<Rightarrow> bool" where
  "fieldCheckValues env checkVals [] = False"
| "fieldCheckValues env checkVals (v # values) =
     (if anyCheckVal env (Sprintf_v env v) checkVals then True
      else fieldCheckValues env checkVals values)"

fun fieldCheckFields :: "go_env \<Rightarrow> val list \<Rightarrow> Config \<Rightarrow> string list \<Rightarrow> bool \<times> string" where
  "fieldCheckFields env checkVals config [] = (False, [])"
| "fieldCheckFields env checkVals config (field # rest) =
     (if fieldCheckValues env checkVals (GetAllFieldValues config field) then (True, field)
      else fieldCheckFields env checkVals config rest)"

definition checkFieldCheck :: "go_env \<Rightarrow> Rule \<Rightarrow> Config \<Rightarrow> bool \<times> string" where
  "checkFieldCheck env rule config =
     fieldCheckFields env (c_Values (r_Check rule)) config (c_Fields (r_Check rule))"

subsection \<open>stop\_sequence\_complexity\<close>

text \<open>\<^verbatim>\<open>len\<close> of a Go string counts bytes, as \<open>length\<close> does on a \<open>string\<close>.\<close>

fun anyLongItem :: "int \<Rightarrow> val list \<Rightarrow> bool" where
  "anyLongItem maxLength [] = False"
| "anyLongItem maxLength (item # items) =
     (case item of
        VString str \<Rightarrow>
          (if int (length str) > maxLength then True else anyLongItem maxLength items)
      | _ \<Rightarrow> anyLongItem maxLength items)"

fun stopSequenceLoop :: "Check \<Rightarrow> val list \<Rightarrow> bool" where
  "stopSequenceLoop check [] = False"
| "stopSequenceLoop check (v # values) =
     (case v of
        VSeq items \<Rightarrow>
          (if c_MaxSequences check > 0 \<and> int (length items) > c_MaxSequences check then True
           else if c_MaxLength check > 0 \<and> anyLongItem (c_MaxLength check) items then True
           else stopSequenceLoop check values)
      | VString str \<Rightarrow>
          (if c_MaxLength check > 0 \<and> int (length str) > c_MaxLength check then True
           else stopSequenceLoop check values)
      | _ \<Rightarrow> stopSequenceLoop check values)"

definition checkStopSequenceComplexity :: "Rule \<Rightarrow> Config \<Rightarrow> bool \<times> string" where
  "checkStopSequenceComplexity rule config =
     (let field = c_Field (r_Check rule) in
      if stopSequenceLoop (r_Check rule) (GetAllFieldValues config field) then (True, field)
      else (False, []))"

subsection \<open>Dispatch\<close>

definition makeFinding :: "Rule \<Rightarrow> bool \<times> string \<Rightarrow> Finding option" where
  "makeFinding rule res =
     (case res of
        (violated, location) \<Rightarrow>
          if \<not> violated then None
          else Some \<lparr> f_RuleID = r_ID rule, f_Name = r_Name rule,
                      f_Severity = r_Severity rule, f_Category = r_Category rule,
                      f_Description = r_Description rule, f_Location = location,
                      f_Recommendation = r_Recommendation rule,
                      f_References = r_References rule \<rparr>)"

definition CheckRule :: "go_env \<Rightarrow> Rule \<Rightarrow> Config \<Rightarrow> Finding option" where
  "CheckRule env rule config =
     (let ty = c_Type (r_Check rule) in
      if ty = ''pattern_match'' then makeFinding rule (checkPatternMatch env rule config)
      else if ty = ''numeric_range'' then makeFinding rule (checkNumericRange env rule config)
      else if ty = ''missing_field'' then makeFinding rule (checkMissingField rule config)
      else if ty = ''missing_fields'' then makeFinding rule (checkMissingFields rule config)
      else if ty = ''field_exists'' then makeFinding rule (checkFieldExists rule config)
      else if ty = ''combined_conditions''
        then makeFinding rule (checkCombinedConditions env rule config)
      else if ty = ''conditional_missing''
        then makeFinding rule (checkConditionalMissing rule config)
      else if ty = ''field_check'' then makeFinding rule (checkFieldCheck env rule config)
      else if ty = ''stop_sequence_complexity''
        then makeFinding rule (checkStopSequenceComplexity rule config)
      else None)"

section \<open>Scan orchestration\<close>

text \<open>\<^verbatim>\<open>ScanConfig\<close>: the loop over the rules of the scanner, which carries the findings.\<close>

record RulesFile =
  Version :: string
  Rules :: "Rule list"
  Categories :: "string list"

record Scanner =
  rules :: RulesFile

fun scanLoop :: "go_env \<Rightarrow> Rule list \<Rightarrow> Config \<Rightarrow> Finding list \<Rightarrow> Finding list" where
  "scanLoop env [] config findings = findings"
| "scanLoop env (rule # rest) config findings =
     scanLoop env rest config
       (case CheckRule env rule config of
          None \<Rightarrow> findings
        | Some finding \<Rightarrow> findings @ [finding])"

definition ScanConfig :: "go_env \<Rightarrow> Scanner \<Rightarrow> Config \<Rightarrow> Finding list" where
  "ScanConfig env s config = scanLoop env (Rules (rules s)) config []"

section \<open>Notions of the specification\<close>

text \<open>
  A key occurs anywhere in the tree: in a mapping at any depth, also in a mapping that
  is an element of a sequence.
\<close>

inductive keyOccurs :: "val \<Rightarrow> string \<Rightarrow> bool" where
  here: "(name, v) \<in> set m \<Longrightarrow> keyOccurs (VMap m) name"
| below: "(key, v) \<in> set m \<Longrightarrow> keyOccurs v name \<Longrightarrow> keyOccurs (VMap m) name"
| element: "v \<in> set items \<Longrightarrow> keyOccurs v name \<Longrightarrow> keyOccurs (VSeq items) name"

text \<open>
  The mappings that are reached from the root through values that are themselves
  mappings, with no sequence on the way.
\<close>

inductive_set nestedMaps :: "gomap \<Rightarrow> gomap set" for root :: gomap where
  root: "root \<in> nestedMaps root"
| step: "m \<in> nestedMaps root \<Longrightarrow> (key, VMap nested) \<in> set m \<Longrightarrow> nested \<in> nestedMaps root"

text \<open>The nine check kinds.\<close>

definition recognizedKinds :: "string list" where
  "recognizedKinds =
     [''pattern_match'', ''numeric_range'', ''missing_field'', ''missing_fields'',
      ''field_exists'', ''combined_conditions'', ''conditional_missing'', ''field_check'',
      ''stop_sequence_complexity'']"

text \<open>The parameters a numeric\_range check names: the single one, or else the list.\<close>

definition namedParameters :: "Check \<Rightarrow> string list" where
  "namedParameters check =
     (if c_Parameter check \<noteq> [] then [c_Parameter check] else c_Parameters check)"

fun isNumeric :: "val \<Rightarrow> bool" where
  "isNumeric (VFloat64 x) = True"
| "isNumeric (VFloat32 x) = True"
| "isNumeric (VInt i) = True"
| "isNumeric (VInt64 i) = True"
| "isNumeric v = False"

fun isString :: "val \<Rightarrow> bool" where
  "isString (VString s) = True"
| "isString v = False"

fun isBoolean :: "val \<Rightarrow> bool" where
  "isBoolean (VBool b) = True"
| "isBoolean v = False"

text \<open>One candidate meets a condition of a combined\_conditions check.\<close>

definition operatorHolds :: "go_env \<Rightarrow> Condition \<Rightarrow> val \<Rightarrow> bool" where
  "operatorHolds env condition v =
     (if cond_Operator condition = ''greater_than'' then
        (case (toFloat env v, toFloat env (cond_Value condition)) of
           (Some num, Some threshold) \<Rightarrow> f64_gt num threshold
         | _ \<Rightarrow> False)
      else if cond_Operator condition = ''not_equals'' then
        Sprintf_v env v \<noteq> Sprintf_v env (cond_Value condition)
      else if cond_Operator condition = ''equals'' then
        Sprintf_v env v = Sprintf_v env (cond_Value condition)
      else False)"

text \<open>A condition is satisfied when some candidate of its parameter meets it.\<close>

definition satisfied :: "go_env \<Rightarrow> Config \<Rightarrow> Condition \<Rightarrow> bool" where
  "satisfied env config condition =
     (\<exists>v \<in> set (GetAllFieldValues config (cond_Parameter condition)).
        operatorHolds env condition v)"

text \<open>
  A candidate of a stop\_sequence\_complexity check is too complex. Each bound counts
  only when it is positive.
\<close>

definition tooComplex :: "Check \<Rightarrow> val \<Rightarrow> bool" where
  "tooComplex check v =
     (case v of
        VSeq items \<Rightarrow>
          (c_MaxSequences check > 0 \<and> int (length items) > c_MaxSequences check) \<or>
          (c_MaxLength check > 0 \<and>
           (\<exists>item \<in> set items.
              case item of VString str \<Rightarrow> int (length str) > c_MaxLength check | _ \<Rightarrow> False))
      | VString str \<Rightarrow> c_MaxLength check > 0 \<and> int (length str) > c_MaxLength check
      | _ \<Rightarrow> False)"

text \<open>
  A check that lacks fields its kind needs, in the cases where the evaluator then finds
  nothing to test.
\<close>

definition incompleteCheck :: "Rule \<Rightarrow> bool" where
  "incompleteCheck rule =
     (let check = r_Check rule; ty = c_Type check in
      (ty = ''numeric_range'' \<and> c_Parameter check = [] \<and> c_Parameters check = []) \<or>
      (ty = ''pattern_match'' \<and> c_Patterns check = []) \<or>
      (ty = ''combined_conditions'' \<and> c_Conditions check = [] \<and> c_Require check \<noteq> ''all'') \<or>
      (ty = ''conditional_missing'' \<and> c_HasAny check = []) \<or>
      (ty = ''field_check'' \<and> (c_Fields check = [] \<or> c_Values check = [])))"

section \<open>Example inputs\<close>

text \<open>
  The zero values of the Go structs: what the loader leaves in every field that a rule
  document does not give.
\<close>

definition zeroCheck :: Check where
  "zeroCheck =
     \<lparr> c_Type = [], c_Parameter = [], c_Parameters = [], c_Field = [], c_Fields = [],
       c_Patterns = [], c_Operator = [], c_Value = VNil, c_Min = Finite 0, c_Max = Finite 0,
       c_Condition = [], c_Conditions = [], c_Require = [], c_HasAny = [], c_MissingAll = [],
       c_Values = [], c_MaxSequences = 0, c_MaxLength = 0 \<rparr>"

definition zeroRule :: Rule where
  "zeroRule =
     \<lparr> r_ID = [], r_Name = [], r_Severity = [], r_Category = [], r_Description = [],
       r_Check = zeroCheck, r_Recommendation = [], r_References = [], r_Fields = [] \<rparr>"

text \<open>
  An instance of the library functions for the examples. It agrees with Go on what the
  examples use: the conversion of an integer below 53 bits is exact, and \<^verbatim>\<open>%v\<close>
  prints a string as it is and nil as \<^verbatim>\<open><nil>\<close>. Its \<open>MatchString\<close> is the search for
  the pattern as a literal, which is what a pattern without metacharacters does; its
  \<open>Sprintf_v\<close> gives the empty string on the other values, and no example formats one.
\<close>

definition exampleEnv :: go_env where
  "exampleEnv =
     \<lparr> MatchString = (\<lambda>pattern s. sublist pattern s),
       Sprintf_v = (\<lambda>v. case v of
                           VString s \<Rightarrow> s
                         | VBool b \<Rightarrow> (if b then ''true'' else ''false'')
                         | VNil \<Rightarrow> ''<nil>''
                         | _ \<Rightarrow> []),
       Float64OfInt = (\<lambda>i. Finite (of_int i)) \<rparr>"

definition mkConfig :: "gomap \<Rightarrow> Config" where
  "mkConfig m = \<lparr> Data = m, FilePath = ''config.json'' \<rparr>"

text \<open>Three sampling parameters above their thresholds.\<close>

definition riskyParams :: Rule where
  "riskyParams = zeroRule\<lparr>r_ID := ''PARAM_001'', r_Check := zeroCheck\<lparr>c_Type := ''combined_conditions'',
      c_Conditions :=
        [\<lparr>cond_Parameter = ''temperature'', cond_Operator = ''greater_than'', cond_Value = VFloat64 (Finite (9/10))\<rparr>,
         \<lparr>cond_Parameter = ''top_p'', cond_Operator = ''greater_than'', cond_Value = VFloat64 (Finite (95/100))\<rparr>,
         \<lparr>cond_Parameter = ''top_k'', cond_Operator = ''greater_than'', cond_Value = VInt 80\<rparr>],
      c_Require := ''at_least_two''\<rparr>\<rparr>"

definition riskyConfig :: Config where
  "riskyConfig = mkConfig [(''temperature'', VFloat64 (Finite (3/2))),
                           (''top_p'', VFloat64 (Finite (98/100))),
                           (''top_k'', VInt 100)]"

section \<open>The evaluator on a heap\<close>

text \<open>
  The functions above take the configuration and the rule as values. In the program the
  configuration is behind a pointer, its mappings are references, and every slice (a
  sequence of the configuration, a list of a rule, the rules of the scanner) is a
  header over an array that other headers may share. This section gives the evaluator
  a second time, on an explicit heap, so that what it writes can be stated.

  \<^item> The heap is a list of objects and an address is an index into it. An allocation
    adds an object at the end; a write replaces the object at an address.
  \<^item> An object is the configuration struct, the scanner struct, a mapping, or the array
    behind slices of one element type. A slice is its header: the address of the
    array, the length and the capacity. The nil slice and the empty slice literal have
    length and capacity zero.
  \<^item> \<^verbatim>\<open>append\<close> writes in place when the length is below the capacity, and otherwise
    allocates an array of the capacity the runtime chooses (\<open>rt_GrowCap\<close>, at least
    the new length), copies the elements and adds the new one.
  \<^item> A \<^verbatim>\<open>range\<close> loop of the program reads an element when its turn comes; here the
    loop reads its mapping or its slice when it starts and runs over what it read.
    The two differ only if the body writes what the loop runs over. The arrays of the
    accumulators are run over after their last append, and no proof below depends on
    the elements a loop reads.
  \<^item> On a heap of the program a slice points to an array of its element type and a
    mapping reference to a mapping. Where the heap given to the model does not, the
    read gives no elements. A configuration pointer that does not point to a
    configuration makes the evaluation fail, as a nil pointer does.
  \<^item> The recursion over nested mappings takes fuel, the depth it may reach; without
    fuel the result is \<open>None\<close>.
  \<^item> The builder of \<^verbatim>\<open>GetAllContent\<close> is a local of the library and is held as the
    string it has built.
  \<^item> The rule is passed by value, so it is a value here too; its lists are slices into
    the heap. \<^verbatim>\<open>fmt.Sprintf\<close> may follow a slice or a mapping it is given, so it
    reads the heap.
  The functions keep the names of the program with the suffix \<open>_h\<close>.
\<close>

type_synonym addr = nat

record slice =
  sl_ptr :: addr
  sl_len :: nat
  sl_cap :: nat

definition nilSlice :: slice where
  "nilSlice = \<lparr> sl_ptr = 0, sl_len = 0, sl_cap = 0 \<rparr>"

datatype hval =
    HString string
  | HFloat64 float64
  | HFloat32 float64
  | HInt int
  | HInt64 int
  | HBool bool
  | HNil
  | HSeq slice
  | HMap addr
  | HOther nat

record hCondition =
  hcond_Parameter :: string
  hcond_Operator :: string
  hcond_Value :: hval

record hCheck =
  hc_Type :: string
  hc_Parameter :: string
  hc_Parameters :: slice
  hc_Field :: string
  hc_Fields :: slice
  hc_Patterns :: slice
  hc_Operator :: string
  hc_Value :: hval
  hc_Min :: float64
  hc_Max :: float64
  hc_Condition :: string
  hc_Conditions :: slice
  hc_Require :: string
  hc_HasAny :: slice
  hc_MissingAll :: slice
  hc_Values :: slice
  hc_MaxSequences :: int
  hc_MaxLength :: int

record hRule =
  hr_ID :: string
  hr_Name :: string
  hr_Severity :: string
  hr_Category :: string
  hr_Description :: string
  hr_Check :: hCheck
  hr_Recommendation :: string
  hr_References :: slice
  hr_Fields :: slice

record hFinding =
  hf_RuleID :: string
  hf_Name :: string
  hf_Severity :: string
  hf_Category :: string
  hf_Description :: string
  hf_Location :: string
  hf_Recommendation :: string
  hf_References :: slice

datatype obj =
    ConfigObj addr string
  | ScannerObj string slice slice
  | MapObj "(string \<times> hval) list"
  | ValArray "hval list"
  | StrArray "string list"
  | CondArray "hCondition list"
  | RuleArray "hRule list"
  | FindingArray "hFinding list"

type_synonym heap = "obj list"

record go_runtime =
  rt_MatchString :: "string \<Rightarrow> string \<Rightarrow> bool"
  rt_Sprintf_v :: "heap \<Rightarrow> hval \<Rightarrow> string"
  rt_Float64OfInt :: "int \<Rightarrow> float64"
  rt_GrowCap :: "nat \<Rightarrow> nat"

text \<open>Reads. \<open>elems\<close> gives the elements of a slice, \<open>entriesAt\<close> those of a mapping.\<close>

definition objAt :: "heap \<Rightarrow> addr \<Rightarrow> obj option" where
  "objAt h a = (if a < length h then Some (h ! a) else None)"

fun valsOf :: "obj \<Rightarrow> hval list" where
  "valsOf (ValArray xs) = xs"
| "valsOf ob = []"

fun strsOf :: "obj \<Rightarrow> string list" where
  "strsOf (StrArray xs) = xs"
| "strsOf ob = []"

fun condsOf :: "obj \<Rightarrow> hCondition list" where
  "condsOf (CondArray xs) = xs"
| "condsOf ob = []"

fun rulesOf :: "obj \<Rightarrow> hRule list" where
  "rulesOf (RuleArray xs) = xs"
| "rulesOf ob = []"

fun findingsOf :: "obj \<Rightarrow> hFinding list" where
  "findingsOf (FindingArray xs) = xs"
| "findingsOf ob = []"

fun entriesOf :: "obj \<Rightarrow> (string \<times> hval) list" where
  "entriesOf (MapObj es) = es"
| "entriesOf ob = []"

definition elems :: "(obj \<Rightarrow> 'a list) \<Rightarrow> heap \<Rightarrow> slice \<Rightarrow> 'a list" where
  "elems proj h s =
     take (sl_len s) (case objAt h (sl_ptr s) of Some ob \<Rightarrow> proj ob | None \<Rightarrow> [])"

definition entriesAt :: "heap \<Rightarrow> addr \<Rightarrow> (string \<times> hval) list" where
  "entriesAt h a = (case objAt h a of Some ob \<Rightarrow> entriesOf ob | None \<Rightarrow> [])"

definition configData :: "heap \<Rightarrow> addr \<Rightarrow> addr option" where
  "configData h config =
     (case objAt h config of Some (ConfigObj d f) \<Rightarrow> Some d | _ \<Rightarrow> None)"

definition scannerRules :: "heap \<Rightarrow> addr \<Rightarrow> slice option" where
  "scannerRules h s =
     (case objAt h s of Some (ScannerObj v rs cs) \<Rightarrow> Some rs | _ \<Rightarrow> None)"

text \<open>\<^verbatim>\<open>append\<close>, for the array kind given by \<open>proj\<close> and \<open>mk\<close>.\<close>

definition appendTo ::
  "(obj \<Rightarrow> 'a list) \<Rightarrow> ('a list \<Rightarrow> obj) \<Rightarrow> 'a \<Rightarrow> go_runtime \<Rightarrow> heap \<Rightarrow> slice \<Rightarrow> 'a \<Rightarrow> heap \<times> slice" where
  "appendTo proj mk zero rt h s x =
     (if sl_len s < sl_cap s
      then (h[sl_ptr s := mk ((proj (h ! sl_ptr s))[sl_len s := x])],
            s\<lparr>sl_len := sl_len s + 1\<rparr>)
      else (let newcap = max (sl_len s + 1) (rt_GrowCap rt (sl_cap s)) in
            (h @ [mk (elems proj h s @ [x] @ replicate (newcap - (sl_len s + 1)) zero)],
             \<lparr> sl_ptr = length h, sl_len = sl_len s + 1, sl_cap = newcap \<rparr>)))"

definition zeroFinding :: hFinding where
  "zeroFinding =
     \<lparr> hf_RuleID = [], hf_Name = [], hf_Severity = [], hf_Category = [],
       hf_Description = [], hf_Location = [], hf_Recommendation = [],
       hf_References = nilSlice \<rparr>"

definition appendVal :: "go_runtime \<Rightarrow> heap \<Rightarrow> slice \<Rightarrow> hval \<Rightarrow> heap \<times> slice" where
  "appendVal = appendTo valsOf ValArray HNil"

definition appendStr :: "go_runtime \<Rightarrow> heap \<Rightarrow> slice \<Rightarrow> string \<Rightarrow> heap \<times> slice" where
  "appendStr = appendTo strsOf StrArray []"

definition appendFinding :: "go_runtime \<Rightarrow> heap \<Rightarrow> slice \<Rightarrow> hFinding \<Rightarrow> heap \<times> slice" where
  "appendFinding = appendTo findingsOf FindingArray zeroFinding"

subsection \<open>Field search\<close>

fun hasFieldLoop :: "(addr \<Rightarrow> bool option) \<Rightarrow> (string \<times> hval) list \<Rightarrow> string \<Rightarrow> bool option" where
  "hasFieldLoop rec [] field = Some False"
| "hasFieldLoop rec ((key, v) # rest) field =
     (if key = field then Some True
      else (case v of
              HMap nested \<Rightarrow>
                (case rec nested of
                   None \<Rightarrow> None
                 | Some found \<Rightarrow> if found then Some True else hasFieldLoop rec rest field)
            | _ \<Rightarrow> hasFieldLoop rec rest field))"

primrec hasFieldRecursive_h :: "nat \<Rightarrow> heap \<Rightarrow> addr \<Rightarrow> string \<Rightarrow> bool option" where
  "hasFieldRecursive_h 0 h data field = None"
| "hasFieldRecursive_h (Suc fuel) h data field =
     hasFieldLoop (\<lambda>nested. hasFieldRecursive_h fuel h nested field) (entriesAt h data) field"

definition HasField_h :: "nat \<Rightarrow> heap \<Rightarrow> addr \<Rightarrow> string \<Rightarrow> bool option" where
  "HasField_h fuel h config field =
     (case configData h config of
        None \<Rightarrow> None
      | Some data \<Rightarrow> hasFieldRecursive_h fuel h data field)"

fun collectLoop ::
  "(heap \<Rightarrow> addr \<Rightarrow> slice \<Rightarrow> (heap \<times> slice) option) \<Rightarrow> go_runtime \<Rightarrow>
   (string \<times> hval) list \<Rightarrow> string \<Rightarrow> heap \<Rightarrow> slice \<Rightarrow> (heap \<times> slice) option" where
  "collectLoop rec rt [] field h vs = Some (h, vs)"
| "collectLoop rec rt ((key, v) # rest) field h vs =
     (case (if key = field then appendVal rt h vs v else (h, vs)) of
        (h1, vs1) \<Rightarrow>
          (case v of
             HMap nested \<Rightarrow>
               (case rec h1 nested vs1 of
                  None \<Rightarrow> None
                | Some (h2, vs2) \<Rightarrow> collectLoop rec rt rest field h2 vs2)
           | _ \<Rightarrow> collectLoop rec rt rest field h1 vs1))"

primrec collectFieldValues_h ::
  "nat \<Rightarrow> go_runtime \<Rightarrow> heap \<Rightarrow> addr \<Rightarrow> string \<Rightarrow> slice \<Rightarrow> (heap \<times> slice) option" where
  "collectFieldValues_h 0 rt h data field vs = None"
| "collectFieldValues_h (Suc fuel) rt h data field vs =
     collectLoop (\<lambda>h1 nested vs1. collectFieldValues_h fuel rt h1 nested field vs1) rt
       (entriesAt h data) field h vs"

definition GetAllFieldValues_h ::
  "nat \<Rightarrow> go_runtime \<Rightarrow> heap \<Rightarrow> addr \<Rightarrow> string \<Rightarrow> (heap \<times> slice) option" where
  "GetAllFieldValues_h fuel rt h config field =
     (case configData h config of
        None \<Rightarrow> None
      | Some data \<Rightarrow> collectFieldValues_h fuel rt h data field nilSlice)"

subsection \<open>Content corpus\<close>

fun collectItems_h :: "hval list \<Rightarrow> string \<Rightarrow> string" where
  "collectItems_h [] content = content"
| "collectItems_h (item # items) content =
     collectItems_h items
       (case item of HString str \<Rightarrow> content @ str @ '' '' | _ \<Rightarrow> content)"

fun contentLoop ::
  "(addr \<Rightarrow> string \<Rightarrow> string option) \<Rightarrow> heap \<Rightarrow> (string \<times> hval) list \<Rightarrow> string \<Rightarrow> string option" where
  "contentLoop rec h [] content = Some content"
| "contentLoop rec h ((key, v) # rest) content =
     (case v of
        HString s \<Rightarrow> contentLoop rec h rest (content @ s @ '' '')
      | HMap m \<Rightarrow>
          (case rec m content of
             None \<Rightarrow> None
           | Some content1 \<Rightarrow> contentLoop rec h rest content1)
      | HSeq items \<Rightarrow> contentLoop rec h rest (collectItems_h (elems valsOf h items) content)
      | _ \<Rightarrow> contentLoop rec h rest content)"

primrec collectContent_h :: "nat \<Rightarrow> heap \<Rightarrow> addr \<Rightarrow> string \<Rightarrow> string option" where
  "collectContent_h 0 h data content = None"
| "collectContent_h (Suc fuel) h data content =
     contentLoop (\<lambda>m content1. collectContent_h fuel h m content1) h (entriesAt h data) content"

definition GetAllContent_h :: "nat \<Rightarrow> heap \<Rightarrow> addr \<Rightarrow> string option" where
  "GetAllContent_h fuel h config =
     (case configData h config of
        None \<Rightarrow> None
      | Some data \<Rightarrow> collectContent_h fuel h data [])"

subsection \<open>The nine predicates\<close>

fun anyPattern_h :: "go_runtime \<Rightarrow> string list \<Rightarrow> string \<Rightarrow> bool" where
  "anyPattern_h rt [] str = False"
| "anyPattern_h rt (pattern # patterns) str =
     (if rt_MatchString rt pattern str then True else anyPattern_h rt patterns str)"

fun matchValues_h :: "go_runtime \<Rightarrow> heap \<Rightarrow> slice \<Rightarrow> hval list \<Rightarrow> bool" where
  "matchValues_h rt h patterns [] = False"
| "matchValues_h rt h patterns (v # vs) =
     (case v of
        HString str \<Rightarrow>
          (if anyPattern_h rt (elems strsOf h patterns) str then True
           else matchValues_h rt h patterns vs)
      | _ \<Rightarrow> matchValues_h rt h patterns vs)"

fun matchFields_h ::
  "nat \<Rightarrow> go_runtime \<Rightarrow> hRule \<Rightarrow> addr \<Rightarrow> string list \<Rightarrow> heap \<Rightarrow> (heap \<times> bool \<times> string) option" where
  "matchFields_h fuel rt rule config [] h = Some (h, False, [])"
| "matchFields_h fuel rt rule config (field # rest) h =
     (case GetAllFieldValues_h fuel rt h config field of
        None \<Rightarrow> None
      | Some (h1, vs) \<Rightarrow>
          if matchValues_h rt h1 (hc_Patterns (hr_Check rule)) (elems valsOf h1 vs)
          then Some (h1, True, field)
          else matchFields_h fuel rt rule config rest h1)"

definition checkPatternMatch_h ::
  "nat \<Rightarrow> go_runtime \<Rightarrow> hRule \<Rightarrow> addr \<Rightarrow> heap \<Rightarrow> (heap \<times> bool \<times> string) option" where
  "checkPatternMatch_h fuel rt rule config h =
     (if sl_len (hr_Fields rule) > 0
      then matchFields_h fuel rt rule config (elems strsOf h (hr_Fields rule)) h
      else (case GetAllContent_h fuel h config of
              None \<Rightarrow> None
            | Some content \<Rightarrow>
                if anyPattern_h rt (elems strsOf h (hc_Patterns (hr_Check rule))) content
                then Some (h, True, ''config content'')
                else Some (h, False, [])))"

fun numericLoop_h :: "go_runtime \<Rightarrow> string \<Rightarrow> hCheck \<Rightarrow> hval list \<Rightarrow> bool \<times> string" where
  "numericLoop_h rt param check [] = (False, [])"
| "numericLoop_h rt param check (v # vs) =
     (case (case v of
              HFloat64 x \<Rightarrow> Some x
            | HFloat32 x \<Rightarrow> Some x
            | HInt i \<Rightarrow> Some (rt_Float64OfInt rt i)
            | HInt64 i \<Rightarrow> Some (rt_Float64OfInt rt i)
            | _ \<Rightarrow> None) of
        None \<Rightarrow> numericLoop_h rt param check vs
      | Some num \<Rightarrow>
          (if (f64_ne0 (hc_Min check) \<or> f64_ne0 (hc_Max check)) \<and>
              (f64_lt num (hc_Min check) \<or> f64_gt num (hc_Max check))
           then (True, param)
           else if hc_Condition check = ''any_value_exceeds'' \<and>
                   (f64_lt num (hc_Min check) \<or> f64_gt num (hc_Max check))
           then (True, param)
           else numericLoop_h rt param check vs))"

definition checkSingleNumeric_h ::
  "nat \<Rightarrow> go_runtime \<Rightarrow> string \<Rightarrow> hCheck \<Rightarrow> addr \<Rightarrow> heap \<Rightarrow> (heap \<times> bool \<times> string) option" where
  "checkSingleNumeric_h fuel rt param check config h =
     (case GetAllFieldValues_h fuel rt h config param of
        None \<Rightarrow> None
      | Some (h1, vs) \<Rightarrow>
          if sl_len vs = 0 then Some (h1, False, [])
          else Some (h1, numericLoop_h rt param check (elems valsOf h1 vs)))"

fun numericParams_h ::
  "nat \<Rightarrow> go_runtime \<Rightarrow> hCheck \<Rightarrow> addr \<Rightarrow> string list \<Rightarrow> heap \<Rightarrow> (heap \<times> bool \<times> string) option" where
  "numericParams_h fuel rt check config [] h = Some (h, False, [])"
| "numericParams_h fuel rt check config (param # params) h =
     (case checkSingleNumeric_h fuel rt param check config h of
        None \<Rightarrow> None
      | Some (h1, violated, loc) \<Rightarrow>
          if violated then Some (h1, True, loc)
          else numericParams_h fuel rt check config params h1)"

definition checkNumericRange_h ::
  "nat \<Rightarrow> go_runtime \<Rightarrow> hRule \<Rightarrow> addr \<Rightarrow> heap \<Rightarrow> (heap \<times> bool \<times> string) option" where
  "checkNumericRange_h fuel rt rule config h =
     (if hc_Parameter (hr_Check rule) \<noteq> []
      then checkSingleNumeric_h fuel rt (hc_Parameter (hr_Check rule)) (hr_Check rule) config h
      else if sl_len (hc_Parameters (hr_Check rule)) > 0
      then numericParams_h fuel rt (hr_Check rule) config
             (elems strsOf h (hc_Parameters (hr_Check rule))) h
      else Some (h, False, []))"

definition checkMissingField_h :: "nat \<Rightarrow> hRule \<Rightarrow> addr \<Rightarrow> heap \<Rightarrow> (bool \<times> string) option" where
  "checkMissingField_h fuel rule config h =
     (let field = hc_Field (hr_Check rule) in
      case HasField_h fuel h config field of
        None \<Rightarrow> None
      | Some present \<Rightarrow> if \<not> present then Some (True, field) else Some (False, []))"

fun anyFieldPresent_h :: "nat \<Rightarrow> heap \<Rightarrow> addr \<Rightarrow> string list \<Rightarrow> bool option" where
  "anyFieldPresent_h fuel h config [] = Some False"
| "anyFieldPresent_h fuel h config (field # rest) =
     (case HasField_h fuel h config field of
        None \<Rightarrow> None
      | Some present \<Rightarrow> if present then Some True else anyFieldPresent_h fuel h config rest)"

definition checkMissingFields_h :: "nat \<Rightarrow> hRule \<Rightarrow> addr \<Rightarrow> heap \<Rightarrow> (bool \<times> string) option" where
  "checkMissingFields_h fuel rule config h =
     (case anyFieldPresent_h fuel h config (elems strsOf h (hc_Fields (hr_Check rule))) of
        None \<Rightarrow> None
      | Some present \<Rightarrow>
          if present then Some (False, [])
          else Some (True, Join (elems strsOf h (hc_Fields (hr_Check rule))) '', ''))"

definition checkFieldExists_h :: "nat \<Rightarrow> hRule \<Rightarrow> addr \<Rightarrow> heap \<Rightarrow> (bool \<times> string) option" where
  "checkFieldExists_h fuel rule config h =
     (let field = hc_Field (hr_Check rule) in
      case HasField_h fuel h config field of
        None \<Rightarrow> None
      | Some present \<Rightarrow> if present then Some (True, field) else Some (False, []))"

definition toFloat_h :: "go_runtime \<Rightarrow> hval \<Rightarrow> float64 option" where
  "toFloat_h rt v =
     (case v of
        HFloat64 x \<Rightarrow> Some x
      | HFloat32 x \<Rightarrow> Some x
      | HInt i \<Rightarrow> Some (rt_Float64OfInt rt i)
      | HInt64 i \<Rightarrow> Some (rt_Float64OfInt rt i)
      | _ \<Rightarrow> None)"

fun conditionLoop_h :: "go_runtime \<Rightarrow> heap \<Rightarrow> hCondition \<Rightarrow> hval list \<Rightarrow> bool" where
  "conditionLoop_h rt h condition [] = False"
| "conditionLoop_h rt h condition (v # vs) =
     (if hcond_Operator condition = ''greater_than'' then
        (case toFloat_h rt v of
           Some num \<Rightarrow>
             (case toFloat_h rt (hcond_Value condition) of
                Some threshold \<Rightarrow>
                  (if f64_gt num threshold then True
                   else conditionLoop_h rt h condition vs)
              | None \<Rightarrow> conditionLoop_h rt h condition vs)
         | None \<Rightarrow> conditionLoop_h rt h condition vs)
      else if hcond_Operator condition = ''not_equals'' then
        (if rt_Sprintf_v rt h v \<noteq> rt_Sprintf_v rt h (hcond_Value condition) then True
         else conditionLoop_h rt h condition vs)
      else if hcond_Operator condition = ''equals'' then
        (if rt_Sprintf_v rt h v = rt_Sprintf_v rt h (hcond_Value condition) then True
         else conditionLoop_h rt h condition vs)
      else conditionLoop_h rt h condition vs)"

definition checkCondition_h ::
  "nat \<Rightarrow> go_runtime \<Rightarrow> hCondition \<Rightarrow> addr \<Rightarrow> heap \<Rightarrow> (heap \<times> bool) option" where
  "checkCondition_h fuel rt condition config h =
     (case GetAllFieldValues_h fuel rt h config (hcond_Parameter condition) of
        None \<Rightarrow> None
      | Some (h1, vs) \<Rightarrow>
          if sl_len vs = 0 then Some (h1, False)
          else Some (h1, conditionLoop_h rt h1 condition (elems valsOf h1 vs)))"

fun countConditions_h ::
  "nat \<Rightarrow> go_runtime \<Rightarrow> addr \<Rightarrow> hCondition list \<Rightarrow> heap \<Rightarrow> nat \<times> slice \<Rightarrow>
   (heap \<times> nat \<times> slice) option" where
  "countConditions_h fuel rt config [] h acc = Some (h, acc)"
| "countConditions_h fuel rt config (condition # conditions) h (metCount, locations) =
     (case checkCondition_h fuel rt condition config h of
        None \<Rightarrow> None
      | Some (h1, met) \<Rightarrow>
          if met
          then (case appendStr rt h1 locations (hcond_Parameter condition) of
                  (h2, locations1) \<Rightarrow>
                    countConditions_h fuel rt config conditions h2 (metCount + 1, locations1))
          else countConditions_h fuel rt config conditions h1 (metCount, locations))"

definition checkCombinedConditions_h ::
  "nat \<Rightarrow> go_runtime \<Rightarrow> hRule \<Rightarrow> addr \<Rightarrow> heap \<Rightarrow> (heap \<times> bool \<times> string) option" where
  "checkCombinedConditions_h fuel rt rule config h =
     (case countConditions_h fuel rt config (elems condsOf h (hc_Conditions (hr_Check rule))) h
             (0, nilSlice) of
        None \<Rightarrow> None
      | Some (h1, metCount, locations) \<Rightarrow>
          (let require = hc_Require (hr_Check rule);
               joined = Join (elems strsOf h1 locations) '', '' in
           if require = ''all'' then
             (if metCount = sl_len (hc_Conditions (hr_Check rule))
              then Some (h1, True, joined) else Some (h1, False, []))
           else if require = ''at_least_two'' then
             (if metCount \<ge> 2 then Some (h1, True, joined) else Some (h1, False, []))
           else if require = ''both'' then
             (if metCount = 2 then Some (h1, True, joined) else Some (h1, False, []))
           else if require = ''any'' then
             (if metCount > 0 then Some (h1, True, joined) else Some (h1, False, []))
           else Some (h1, False, [])))"

definition checkConditionalMissing_h ::
  "nat \<Rightarrow> hRule \<Rightarrow> addr \<Rightarrow> heap \<Rightarrow> (bool \<times> string) option" where
  "checkConditionalMissing_h fuel rule config h =
     (case anyFieldPresent_h fuel h config (elems strsOf h (hc_HasAny (hr_Check rule))) of
        None \<Rightarrow> None
      | Some hasAny \<Rightarrow>
          if \<not> hasAny then Some (False, [])
          else (case anyFieldPresent_h fuel h config
                       (elems strsOf h (hc_MissingAll (hr_Check rule))) of
                  None \<Rightarrow> None
                | Some present \<Rightarrow>
                    if present then Some (False, [])
                    else Some (True, Join (elems strsOf h (hc_MissingAll (hr_Check rule))) '', '')))"

fun anyCheckVal_h :: "go_runtime \<Rightarrow> heap \<Rightarrow> string \<Rightarrow> hval list \<Rightarrow> bool" where
  "anyCheckVal_h rt h valStr [] = False"
| "anyCheckVal_h rt h valStr (checkVal # checkVals) =
     (if valStr = rt_Sprintf_v rt h checkVal then True
      else anyCheckVal_h rt h valStr checkVals)"

fun fieldCheckValues_h :: "go_runtime \<Rightarrow> heap \<Rightarrow> slice \<Rightarrow> hval list \<Rightarrow> bool" where
  "fieldCheckValues_h rt h checkVals [] = False"
| "fieldCheckValues_h rt h checkVals (v # vs) =
     (if anyCheckVal_h rt h (rt_Sprintf_v rt h v) (elems valsOf h checkVals) then True
      else fieldCheckValues_h rt h checkVals vs)"

fun fieldCheckFields_h ::
  "nat \<Rightarrow> go_runtime \<Rightarrow> hRule \<Rightarrow> addr \<Rightarrow> string list \<Rightarrow> heap \<Rightarrow> (heap \<times> bool \<times> string) option" where
  "fieldCheckFields_h fuel rt rule config [] h = Some (h, False, [])"
| "fieldCheckFields_h fuel rt rule config (field # rest) h =
     (case GetAllFieldValues_h fuel rt h config field of
        None \<Rightarrow> None
      | Some (h1, vs) \<Rightarrow>
          if fieldCheckValues_h rt h1 (hc_Values (hr_Check rule)) (elems valsOf h1 vs)
          then Some (h1, True, field)
          else fieldCheckFields_h fuel rt rule config rest h1)"

definition checkFieldCheck_h ::
  "nat \<Rightarrow> go_runtime \<Rightarrow> hRule \<Rightarrow> addr \<Rightarrow> heap \<Rightarrow> (heap \<times> bool \<times> string) option" where
  "checkFieldCheck_h fuel rt rule config h =
     fieldCheckFields_h fuel rt rule config (elems strsOf h (hc_Fields (hr_Check rule))) h"

fun anyLongItem_h :: "int \<Rightarrow> hval list \<Rightarrow> bool" where
  "anyLongItem_h maxLength [] = False"
| "anyLongItem_h maxLength (item # items) =
     (case item of
        HString str \<Rightarrow>
          (if int (length str) > maxLength then True else anyLongItem_h maxLength items)
      | _ \<Rightarrow> anyLongItem_h maxLength items)"

fun stopSequenceLoop_h :: "heap \<Rightarrow> hCheck \<Rightarrow> hval list \<Rightarrow> bool" where
  "stopSequenceLoop_h h check [] = False"
| "stopSequenceLoop_h h check (v # vs) =
     (case v of
        HSeq items \<Rightarrow>
          (if hc_MaxSequences check > 0 \<and> int (sl_len items) > hc_MaxSequences check then True
           else if hc_MaxLength check > 0 \<and>
                   anyLongItem_h (hc_MaxLength check) (elems valsOf h items) then True
           else stopSequenceLoop_h h check vs)
      | HString str \<Rightarrow>
          (if hc_MaxLength check > 0 \<and> int (length str) > hc_MaxLength check then True
           else stopSequenceLoop_h h check vs)
      | _ \<Rightarrow> stopSequenceLoop_h h check vs)"

definition checkStopSequenceComplexity_h ::
  "nat \<Rightarrow> go_runtime \<Rightarrow> hRule \<Rightarrow> addr \<Rightarrow> heap \<Rightarrow> (heap \<times> bool \<times> string) option" where
  "checkStopSequenceComplexity_h fuel rt rule config h =
     (let field = hc_Field (hr_Check rule) in
      case GetAllFieldValues_h fuel rt h config field of
        None \<Rightarrow> None
      | Some (h1, vs) \<Rightarrow>
          if stopSequenceLoop_h h1 (hr_Check rule) (elems valsOf h1 vs)
          then Some (h1, True, field)
          else Some (h1, False, []))"

subsection \<open>Dispatch and scan\<close>

definition makeFinding_h :: "hRule \<Rightarrow> bool \<times> string \<Rightarrow> hFinding option" where
  "makeFinding_h rule res =
     (case res of
        (violated, location) \<Rightarrow>
          if \<not> violated then None
          else Some \<lparr> hf_RuleID = hr_ID rule, hf_Name = hr_Name rule,
                      hf_Severity = hr_Severity rule, hf_Category = hr_Category rule,
                      hf_Description = hr_Description rule, hf_Location = location,
                      hf_Recommendation = hr_Recommendation rule,
                      hf_References = hr_References rule \<rparr>)"

definition writing ::
  "hRule \<Rightarrow> (heap \<times> bool \<times> string) option \<Rightarrow> (heap \<times> hFinding option) option" where
  "writing rule r = (case r of None \<Rightarrow> None | Some (h1, res) \<Rightarrow> Some (h1, makeFinding_h rule res))"

definition reading ::
  "hRule \<Rightarrow> heap \<Rightarrow> (bool \<times> string) option \<Rightarrow> (heap \<times> hFinding option) option" where
  "reading rule h r = (case r of None \<Rightarrow> None | Some res \<Rightarrow> Some (h, makeFinding_h rule res))"

definition CheckRule_h ::
  "nat \<Rightarrow> go_runtime \<Rightarrow> hRule \<Rightarrow> addr \<Rightarrow> heap \<Rightarrow> (heap \<times> hFinding option) option" where
  "CheckRule_h fuel rt rule config h =
     (let ty = hc_Type (hr_Check rule) in
      if ty = ''pattern_match'' then writing rule (checkPatternMatch_h fuel rt rule config h)
      else if ty = ''numeric_range'' then writing rule (checkNumericRange_h fuel rt rule config h)
      else if ty = ''missing_field'' then reading rule h (checkMissingField_h fuel rule config h)
      else if ty = ''missing_fields'' then reading rule h (checkMissingFields_h fuel rule config h)
      else if ty = ''field_exists'' then reading rule h (checkFieldExists_h fuel rule config h)
      else if ty = ''combined_conditions''
        then writing rule (checkCombinedConditions_h fuel rt rule config h)
      else if ty = ''conditional_missing''
        then reading rule h (checkConditionalMissing_h fuel rule config h)
      else if ty = ''field_check'' then writing rule (checkFieldCheck_h fuel rt rule config h)
      else if ty = ''stop_sequence_complexity''
        then writing rule (checkStopSequenceComplexity_h fuel rt rule config h)
      else Some (h, None))"

fun scanLoop_h ::
  "nat \<Rightarrow> go_runtime \<Rightarrow> addr \<Rightarrow> hRule list \<Rightarrow> heap \<Rightarrow> slice \<Rightarrow> (heap \<times> slice) option" where
  "scanLoop_h fuel rt config [] h findings = Some (h, findings)"
| "scanLoop_h fuel rt config (rule # rest) h findings =
     (case CheckRule_h fuel rt rule config h of
        None \<Rightarrow> None
      | Some (h1, None) \<Rightarrow> scanLoop_h fuel rt config rest h1 findings
      | Some (h1, Some finding) \<Rightarrow>
          (case appendFinding rt h1 findings finding of
             (h2, findings1) \<Rightarrow> scanLoop_h fuel rt config rest h2 findings1))"

definition ScanConfig_h ::
  "nat \<Rightarrow> go_runtime \<Rightarrow> addr \<Rightarrow> addr \<Rightarrow> heap \<Rightarrow> (heap \<times> slice) option" where
  "ScanConfig_h fuel rt s config h =
     (case scannerRules h s of
        None \<Rightarrow> None
      | Some rs \<Rightarrow> scanLoop_h fuel rt config (elems rulesOf h rs) h nilSlice)"

subsection \<open>Well-formed configurations and owned slices\<close>

text \<open>
  \<open>depthOK h d a\<close>: the mappings reached from the one at \<open>a\<close> are on the heap and nest
  less than \<open>d\<close> deep. \<open>configOK\<close>: the pointer holds a configuration whose data is
  such a mapping. A slice is owned above \<open>n\<close> when an append in place to it writes
  at an address from \<open>n\<close> on.
\<close>

primrec depthOK :: "heap \<Rightarrow> nat \<Rightarrow> addr \<Rightarrow> bool" where
  "depthOK h 0 a = False"
| "depthOK h (Suc d) a =
     (a < length h \<and>
      list_all (\<lambda>(key, v). case v of HMap nested \<Rightarrow> depthOK h d nested | _ \<Rightarrow> True)
        (entriesAt h a))"

definition configOK :: "heap \<Rightarrow> nat \<Rightarrow> addr \<Rightarrow> bool" where
  "configOK h d config =
     (case configData h config of None \<Rightarrow> False | Some data \<Rightarrow> depthOK h d data)"

definition owned :: "nat \<Rightarrow> slice \<Rightarrow> bool" where
  "owned n s = (sl_len s < sl_cap s \<longrightarrow> n \<le> sl_ptr s)"

subsection \<open>An example heap\<close>

text \<open>
  A runtime whose growth doubles the capacity, a rule, and a heap: a configuration
  (at address 0) with a nested mapping and a sequence, the array of the references of
  the rule, and a scanner (at address 6) with the array of its one rule.
\<close>

definition exampleRuntime :: go_runtime where
  "exampleRuntime =
     \<lparr> rt_MatchString = (\<lambda>pattern s. sublist pattern s),
       rt_Sprintf_v = (\<lambda>h v. case v of
                              HString s \<Rightarrow> s
                            | HBool b \<Rightarrow> (if b then ''true'' else ''false'')
                            | HNil \<Rightarrow> ''<nil>''
                            | _ \<Rightarrow> []),
       rt_Float64OfInt = (\<lambda>i. Finite (of_int i)),
       rt_GrowCap = (\<lambda>c. 2 * c) \<rparr>"

definition temperatureRule :: hRule where
  "temperatureRule =
     \<lparr> hr_ID = ''TEMP_001'', hr_Name = ''High Temperature'', hr_Severity = ''HIGH'',
       hr_Category = [], hr_Description = [],
       hr_Check =
         \<lparr> hc_Type = ''numeric_range'', hc_Parameter = ''temperature'',
           hc_Parameters = nilSlice, hc_Field = [], hc_Fields = nilSlice,
           hc_Patterns = nilSlice, hc_Operator = [], hc_Value = HNil,
           hc_Min = Finite 0, hc_Max = Finite 1, hc_Condition = [],
           hc_Conditions = nilSlice, hc_Require = [], hc_HasAny = nilSlice,
           hc_MissingAll = nilSlice, hc_Values = nilSlice, hc_MaxSequences = 0,
           hc_MaxLength = 0 \<rparr>,
       hr_Recommendation = [],
       hr_References = \<lparr> sl_ptr = 4, sl_len = 1, sl_cap = 1 \<rparr>,
       hr_Fields = nilSlice \<rparr>"

definition exampleHeap :: heap where
  "exampleHeap =
     [ConfigObj 1 ''config.json'',
      MapObj [(''temperature'', HFloat64 (Finite (3/2))),
              (''stop'', HSeq \<lparr> sl_ptr = 2, sl_len = 1, sl_cap = 1 \<rparr>),
              (''fallback'', HMap 3)],
      ValArray [HString ''END''],
      MapObj [(''temperature'', HFloat64 (Finite (1/2)))],
      StrArray [''Princeton Catastrophic Jailbreak Study''],
      RuleArray [temperatureRule],
      ScannerObj ''1.0'' \<lparr> sl_ptr = 5, sl_len = 1, sl_cap = 1 \<rparr> nilSlice]"

section \<open>Properties of the field search\<close>

lemma gomap_induct [case_names Nil Cons]:
  assumes nil: "P []"
    and cons: "\<And>key v rest.
                 (\<And>nested. v = VMap nested \<Longrightarrow> P nested) \<Longrightarrow> P rest \<Longrightarrow> P ((key, v) # rest)"
  shows "P (m :: gomap)"
proof (induction m rule: measure_induct_rule [where f = "\<lambda>m. size (VMap m)"])
  case (less m)
  show ?case
  proof (cases m)
    case Nil
    then show ?thesis using nil by simp
  next
    case (Cons kv rest)
    obtain key v where kv: "kv = (key, v)" by (cases kv)
    have "P rest" using less Cons by simp
    moreover have "\<And>nested. v = VMap nested \<Longrightarrow> P nested"
      using less Cons kv by simp
    ultimately show ?thesis using cons Cons kv by simp
  qed
qed

lemma not_VMap_case:
  "(\<And>nested. v \<noteq> VMap nested) \<Longrightarrow> (case v of VMap nested \<Rightarrow> f nested | _ \<Rightarrow> d) = d"
  by (cases v) auto

text \<open>The accumulator of \<open>collectFieldValues\<close> only grows at its end.\<close>

lemma collectFieldValues_acc:
  "collectFieldValues m field acc = acc @ collectFieldValues m field []"
proof (induction m arbitrary: acc rule: gomap_induct)
  case Nil
  show ?case by simp
next
  case (Cons key v rest)
  define B where "B = (if key = field then [v] else [])"
  define R where "R = collectFieldValues rest field []"
  have A: "(if key = field then acc @ [v] else acc) = acc @ B"
    by (simp add: B_def)
  have B: "(if key = field then [] @ [v] else []) = B"
    by (simp add: B_def)
  have r: "collectFieldValues rest field X = X @ R" for X
    unfolding R_def using Cons.IH(2) .
  show ?case
  proof (cases "\<exists>nested. v = VMap nested")
    case True
    then obtain nested where VMap: "v = VMap nested" by blast
    define N where "N = collectFieldValues nested field []"
    have n: "collectFieldValues nested field X = X @ N" for X
      unfolding N_def using Cons.IH(1)[OF VMap] .
    have "collectFieldValues ((key, v) # rest) field acc = (acc @ B @ N) @ R"
      unfolding collectFieldValues.simps A by (simp add: VMap r n)
    moreover have "collectFieldValues ((key, v) # rest) field [] = (B @ N) @ R"
      unfolding collectFieldValues.simps B by (simp add: VMap r n)
    ultimately show ?thesis by simp
  next
    case False
    then have nm: "\<And>nested. v \<noteq> VMap nested" by blast
    have "collectFieldValues ((key, v) # rest) field acc = (acc @ B) @ R"
      unfolding collectFieldValues.simps A not_VMap_case[OF nm] by (simp add: r)
    moreover have "collectFieldValues ((key, v) # rest) field [] = B @ R"
      unfolding collectFieldValues.simps B not_VMap_case[OF nm] by (simp add: r)
    ultimately show ?thesis by simp
  qed
qed

lemma collectFieldValues_Cons:
  "collectFieldValues ((key, v) # rest) field [] =
     (if key = field then [v] else []) @
     (case v of VMap nested \<Rightarrow> collectFieldValues nested field [] | _ \<Rightarrow> []) @
     collectFieldValues rest field []"
proof (cases "\<exists>nested. v = VMap nested")
  case True
  then obtain nested where VMap: "v = VMap nested" by blast
  show ?thesis
    by (simp add: VMap
          collectFieldValues_acc[of rest field "collectFieldValues nested field X" for X]
          collectFieldValues_acc[of nested field "[VMap nested]"])
next
  case False
  then have nm: "\<And>nested. v \<noteq> VMap nested" by blast
  show ?thesis
    unfolding collectFieldValues.simps not_VMap_case[OF nm]
    by (simp add: collectFieldValues_acc[of rest field "[v]"])
qed

text \<open>A field is found exactly when it has a candidate value.\<close>

lemma hasField_iff_values:
  "hasFieldRecursive m field \<longleftrightarrow> collectFieldValues m field [] \<noteq> []"
proof (induction m rule: gomap_induct)
  case Nil
  show ?case by simp
next
  case (Cons key v rest)
  show ?case
  proof (cases "\<exists>nested. v = VMap nested")
    case True
    then obtain nested where VMap: "v = VMap nested" by blast
    show ?thesis
      unfolding collectFieldValues_Cons
      using Cons.IH(1)[OF VMap] Cons.IH(2) by (simp add: VMap)
  next
    case False
    then have nm: "\<And>nested. v \<noteq> VMap nested" by blast
    show ?thesis
      unfolding collectFieldValues_Cons hasFieldRecursive.simps not_VMap_case[OF nm]
      using Cons.IH(2) by simp
  qed
qed

section \<open>Properties of the evaluator\<close>

lemma makeFinding_None: "makeFinding rule res = None \<longleftrightarrow> \<not> fst res"
  by (cases res) (simp add: makeFinding_def)

text \<open>
  C3. Symmetry of missing\_field and field\_exists: on the same field name and the same
  configuration, the missing\_field check violates exactly when the field\_exists check
  does not. This is stated for the two predicates on one rule, and for the findings of
  \<open>CheckRule\<close> on a rule of either kind with the field name \<open>F\<close>.
\<close>

theorem missing_field_inverse_of_field_exists:
  "fst (checkMissingField rule config) = (\<not> fst (checkFieldExists rule config)) \<and>
   (CheckRule env
      (rule\<lparr>r_Check := (r_Check rule)\<lparr>c_Type := ''missing_field'', c_Field := F\<rparr>\<rparr>) config
      \<noteq> None)
   = (CheckRule env
        (rule\<lparr>r_Check := (r_Check rule)\<lparr>c_Type := ''field_exists'', c_Field := F\<rparr>\<rparr>) config
      = None)"
  by (simp add: CheckRule_def makeFinding_None checkMissingField_def checkFieldExists_def
        Let_def)

text \<open>
  C5. A rule whose check type is none of the nine recognized kinds yields no finding,
  on every configuration. \<open>CheckRule\<close> returns a finding or nothing and has no way to
  signal an error.
\<close>

theorem unrecognized_kind_no_finding:
  "c_Type (r_Check rule) \<notin> set recognizedKinds \<Longrightarrow> CheckRule env rule config = None"
  by (simp add: CheckRule_def recognizedKinds_def)

theorem unrecognized_kind_no_finding_witness:
  "c_Type (r_Check (zeroRule\<lparr>r_Check := zeroCheck\<lparr>c_Type := ''regex_match''\<rparr>\<rparr>))
     \<notin> set recognizedKinds \<and>
   CheckRule exampleEnv (zeroRule\<lparr>r_Check := zeroCheck\<lparr>c_Type := ''regex_match''\<rparr>\<rparr>)
     (mkConfig [(''model'', VString ''gpt-4'')]) = None"
proof -
  have h: "c_Type (r_Check (zeroRule\<lparr>r_Check := zeroCheck\<lparr>c_Type := ''regex_match''\<rparr>\<rparr>))
             \<notin> set recognizedKinds"
    by (simp add: recognizedKinds_def)
  show ?thesis
    using h unrecognized_kind_no_finding[OF h] by simp
qed

subsection \<open>numeric\_range with both bounds zero\<close>

lemma numericLoop_zero_bounds:
  assumes "c_Min check = Finite 0" and "c_Max check = Finite 0"
    and "c_Condition check \<noteq> ''any_value_exceeds''"
  shows "numericLoop env param check vs = (False, [])"
proof (induction vs)
  case Nil
  show ?case by simp
next
  case (Cons v vs)
  then show ?case using assms
    by (cases v) (simp_all add: f64_ne0_def)
qed

lemma checkSingleNumeric_zero_bounds:
  assumes "c_Min check = Finite 0" and "c_Max check = Finite 0"
    and "c_Condition check \<noteq> ''any_value_exceeds''"
  shows "checkSingleNumeric env param check config = (False, [])"
  by (simp add: checkSingleNumeric_def Let_def numericLoop_zero_bounds[OF assms])

lemma numericParams_zero_bounds:
  assumes "c_Min check = Finite 0" and "c_Max check = Finite 0"
    and "c_Condition check \<noteq> ''any_value_exceeds''"
  shows "numericParams env check config ps = (False, [])"
  by (induction ps) (simp_all add: checkSingleNumeric_zero_bounds[OF assms])

text \<open>
  C1, as the code has it. A numeric\_range rule with Min = 0 and Max = 0 yields no
  finding on any configuration, provided its Condition is not \<^verbatim>\<open>any_value_exceeds\<close>:
  the second test of the loop, taken under that condition, compares against the bounds
  whether they are zero or not.
\<close>

theorem zero_bounds_disable_range_test:
  assumes "c_Type (r_Check rule) = ''numeric_range''"
    and "c_Min (r_Check rule) = Finite 0" and "c_Max (r_Check rule) = Finite 0"
    and "c_Condition (r_Check rule) \<noteq> ''any_value_exceeds''"
  shows "CheckRule env rule config = None"
  using assms(1)
  by (simp add: CheckRule_def makeFinding_None checkNumericRange_def
        checkSingleNumeric_zero_bounds[OF assms(2-4)] numericParams_zero_bounds[OF assms(2-4)])

theorem zero_bounds_disable_range_test_witness:
  "CheckRule exampleEnv
     (zeroRule\<lparr>r_Check := zeroCheck\<lparr>c_Type := ''numeric_range'', c_Parameter := ''temperature'',
                                     c_Min := Finite 0, c_Max := Finite 0\<rparr>\<rparr>)
     (mkConfig [(''temperature'', VFloat64 (Finite (3/2)))]) = None"
  by (rule zero_bounds_disable_range_test) (simp_all add: zeroCheck_def)

text \<open>
  With the Condition \<^verbatim>\<open>any_value_exceeds\<close>, the same rule on the configuration
  \<^verbatim>\<open>{"temperature": 1.5}\<close> yields a finding at \<^verbatim>\<open>temperature\<close>.
\<close>

theorem zero_bounds_any_value_exceeds_counterexample:
  "c_Min (zeroCheck\<lparr>c_Type := ''numeric_range'', c_Parameter := ''temperature'',
                    c_Min := Finite 0, c_Max := Finite 0,
                    c_Condition := ''any_value_exceeds''\<rparr>) = Finite 0 \<and>
   c_Max (zeroCheck\<lparr>c_Type := ''numeric_range'', c_Parameter := ''temperature'',
                    c_Min := Finite 0, c_Max := Finite 0,
                    c_Condition := ''any_value_exceeds''\<rparr>) = Finite 0 \<and>
   map_option f_Location
     (CheckRule exampleEnv
        (zeroRule\<lparr>r_Check := zeroCheck\<lparr>c_Type := ''numeric_range'', c_Parameter := ''temperature'',
                                        c_Min := Finite 0, c_Max := Finite 0,
                                        c_Condition := ''any_value_exceeds''\<rparr>\<rparr>)
        (mkConfig [(''temperature'', VFloat64 (Finite (3/2)))])) = Some ''temperature''"
  by (simp add: CheckRule_def makeFinding_def checkNumericRange_def checkSingleNumeric_def
        GetAllFieldValues_def mkConfig_def f64_ne0_def f64_gt_def Let_def)

subsection \<open>What the field search reaches\<close>

lemma hasField_key_here:
  "field \<in> fst ` set m \<Longrightarrow> hasFieldRecursive m field"
proof (induction m)
  case Nil
  then show ?case by simp
next
  case (Cons kv m)
  obtain key v where kv: "kv = (key, v)" by (cases kv)
  show ?case
  proof (cases "key = field")
    case True
    then show ?thesis by (simp add: kv)
  next
    case False
    then have "field \<in> fst ` set m" using Cons.prems kv by auto
    then have "hasFieldRecursive m field" by (rule Cons.IH)
    then show ?thesis by (simp add: kv)
  qed
qed

lemma hasField_key_below:
  "(key, VMap nested) \<in> set m \<Longrightarrow> hasFieldRecursive nested field \<Longrightarrow> hasFieldRecursive m field"
  by (induction m) auto

lemma hasField_nestedMaps:
  "n \<in> nestedMaps m \<Longrightarrow> hasFieldRecursive n field \<Longrightarrow> hasFieldRecursive m field"
  by (induction rule: nestedMaps.induct) (auto intro: hasField_key_below)

lemma nestedMaps_trans:
  "k \<in> nestedMaps n \<Longrightarrow> n \<in> nestedMaps m \<Longrightarrow> k \<in> nestedMaps m"
  by (induction rule: nestedMaps.induct) (auto intro: nestedMaps.step)

lemma nestedMaps_rest:
  "n \<in> nestedMaps rest \<Longrightarrow> n = rest \<or> n \<in> nestedMaps (kv # rest)"
proof (induction rule: nestedMaps.induct)
  case root
  show ?case by simp
next
  case (step m key nested)
  from step.IH show ?case
  proof
    assume "m = rest"
    then have "(key, VMap nested) \<in> set (kv # rest)" using step.hyps(2) by simp
    then have "nested \<in> nestedMaps (kv # rest)"
      using nestedMaps.step[OF nestedMaps.root] by blast
    then show ?thesis ..
  next
    assume "m \<in> nestedMaps (kv # rest)"
    then have "nested \<in> nestedMaps (kv # rest)"
      using step.hyps(2) by (rule nestedMaps.step)
    then show ?thesis ..
  qed
qed

lemma hasField_finds_map:
  "hasFieldRecursive m field \<Longrightarrow> \<exists>n \<in> nestedMaps m. field \<in> fst ` set n"
proof (induction m rule: gomap_induct)
  case Nil
  then show ?case by simp
next
  case (Cons key v rest)
  let ?root = "(key, v) # rest"
  show ?case
  proof (cases "key = field")
    case True
    then have "field \<in> fst ` set ?root" by simp
    then show ?thesis using nestedMaps.root by blast
  next
    case False
    show ?thesis
    proof (cases "\<exists>nested. v = VMap nested \<and> hasFieldRecursive nested field")
      case True
      then obtain nested where VMap: "v = VMap nested" and h: "hasFieldRecursive nested field"
        by blast
      from Cons.IH(1)[OF VMap h] obtain n where n: "n \<in> nestedMaps nested" "field \<in> fst ` set n"
        by blast
      have "nested \<in> nestedMaps ?root"
        using nestedMaps.step[OF nestedMaps.root, of key nested ?root] VMap by simp
      then have "n \<in> nestedMaps ?root" using n(1) nestedMaps_trans by blast
      then show ?thesis using n(2) by blast
    next
      case nonested: False
      have "hasFieldRecursive rest field"
      proof (cases "\<exists>nested. v = VMap nested")
        case True
        then obtain nested where VMap: "v = VMap nested" by blast
        then show ?thesis using Cons.prems False nonested by simp
      next
        case False
        then have nm: "\<And>nested. v \<noteq> VMap nested" by blast
        show ?thesis using Cons.prems \<open>key \<noteq> field\<close>
          unfolding hasFieldRecursive.simps not_VMap_case[OF nm] by simp
      qed
      from Cons.IH(2)[OF this] obtain n where n: "n \<in> nestedMaps rest" "field \<in> fst ` set n"
        by blast
      from nestedMaps_rest[OF n(1), of "(key, v)"] show ?thesis
      proof
        assume "n = rest"
        then have "field \<in> fst ` set ?root" using n(2) by auto
        then show ?thesis using nestedMaps.root by blast
      next
        assume "n \<in> nestedMaps ?root"
        then show ?thesis using n(2) by blast
      qed
    qed
  qed
qed

text \<open>
  C2, as the code has it. \<open>HasField\<close> is true exactly when the name is a key of the root
  mapping or of a mapping reached from the root through values that are themselves
  mappings. The search does not enter a sequence, so a key of a mapping that is an
  element of a sequence is not found.
\<close>

theorem HasField_searches_nested_mappings:
  "HasField config name \<longleftrightarrow> (\<exists>m \<in> nestedMaps (Data config). name \<in> fst ` set m)"
  unfolding HasField_def
  using hasField_finds_map hasField_nestedMaps hasField_key_here by blast

theorem HasField_searches_nested_mappings_witness:
  "HasField (mkConfig [(''temperature'', VFloat64 (Finite (7/10))),
                       (''nested'', VMap [(''api_key'', VString ''sk-test'')])]) ''api_key'' \<and>
   (\<exists>m \<in> nestedMaps (Data (mkConfig [(''temperature'', VFloat64 (Finite (7/10))),
                       (''nested'', VMap [(''api_key'', VString ''sk-test'')])])). ''api_key'' \<in> fst ` set m)"
proof -
  have "HasField (mkConfig [(''temperature'', VFloat64 (Finite (7/10))),
                       (''nested'', VMap [(''api_key'', VString ''sk-test'')])]) ''api_key''"
    by (simp add: HasField_def mkConfig_def)
  then show ?thesis
    using HasField_searches_nested_mappings[of "mkConfig [(''temperature'', VFloat64 (Finite (7/10))),
                       (''nested'', VMap [(''api_key'', VString ''sk-test'')])]" "''api_key''"]
    by blast
qed

text \<open>
  In \<^verbatim>\<open>{"providers": [{"api_key": "sk-test"}]}\<close> the key \<^verbatim>\<open>api_key\<close> occurs in a
  mapping of the tree, and \<open>HasField\<close> does not find it.
\<close>

theorem HasField_skips_sequences_counterexample:
  "keyOccurs (VMap (Data (mkConfig [(''providers'', VSeq [VMap [(''api_key'', VString ''sk-test'')]])])))
     ''api_key'' \<and>
   \<not> HasField (mkConfig [(''providers'', VSeq [VMap [(''api_key'', VString ''sk-test'')]])])
       ''api_key''"
proof
  have "keyOccurs (VMap [(''api_key'', VString ''sk-test'')]) ''api_key''"
    by (rule keyOccurs.here[of _ "VString ''sk-test''"]) simp
  then have "keyOccurs (VSeq [VMap [(''api_key'', VString ''sk-test'')]]) ''api_key''"
    by (rule keyOccurs.element[rotated]) simp
  then have "keyOccurs (VMap [(''providers'', VSeq [VMap [(''api_key'', VString ''sk-test'')]])]) ''api_key''"
    by (rule keyOccurs.below[rotated]) simp
  then show "keyOccurs (VMap (Data (mkConfig [(''providers'', VSeq [VMap [(''api_key'', VString ''sk-test'')]])])))
     ''api_key''" by (simp add: mkConfig_def)
  show "\<not> HasField (mkConfig [(''providers'', VSeq [VMap [(''api_key'', VString ''sk-test'')]])])
       ''api_key''"
    by (simp add: HasField_def mkConfig_def)
qed

subsection \<open>Incomplete checks\<close>

lemma matchValues_no_patterns: "matchValues env [] vs = False"
  by (induction vs) (auto split: val.splits)

lemma matchFields_no_patterns: "matchFields env [] config fs = (False, [])"
  by (induction fs) (simp_all add: matchValues_no_patterns)

lemma fieldCheckValues_no_values: "fieldCheckValues env [] vs = False"
  by (induction vs) simp_all

lemma fieldCheckFields_no_values: "fieldCheckFields env [] config fs = (False, [])"
  by (induction fs) (simp_all add: fieldCheckValues_no_values)

text \<open>
  C4, as the code has it. A rule whose check lacks the fields its kind needs yields no
  finding, on every configuration, in these cases: numeric\_range with no Parameter and
  no Parameters; pattern\_match with no patterns; combined\_conditions with no
  conditions and a Require other than \<^verbatim>\<open>all\<close>; conditional\_missing with no HasAny
  field; field\_check with no fields or no values. \<open>CheckRule\<close> returns a finding or
  nothing and has no way to signal an error.
\<close>

theorem incomplete_check_no_finding:
  "incompleteCheck rule \<Longrightarrow> CheckRule env rule config = None"
  unfolding incompleteCheck_def Let_def
  by (elim disjE conjE)
     (simp_all add: CheckRule_def makeFinding_None checkNumericRange_def checkPatternMatch_def
        matchFields_no_patterns checkCombinedConditions_def checkConditionalMissing_def
        checkFieldCheck_def fieldCheckFields_no_values Let_def)

theorem incomplete_check_no_finding_witness:
  "incompleteCheck (zeroRule\<lparr>r_Check := zeroCheck\<lparr>c_Type := ''numeric_range''\<rparr>\<rparr>) \<and>
   CheckRule exampleEnv (zeroRule\<lparr>r_Check := zeroCheck\<lparr>c_Type := ''numeric_range''\<rparr>\<rparr>)
     (mkConfig [(''temperature'', VFloat64 (Finite (3/2)))]) = None"
proof -
  have h: "incompleteCheck (zeroRule\<lparr>r_Check := zeroCheck\<lparr>c_Type := ''numeric_range''\<rparr>\<rparr>)"
    by (simp add: incompleteCheck_def zeroCheck_def)
  show ?thesis using h incomplete_check_no_finding[OF h] by simp
qed

text \<open>
  Three incomplete checks that do yield a finding on \<^verbatim>\<open>{"model": "gpt-4"}\<close>:
  missing\_fields with an empty field list, missing\_field with an empty field name,
  and combined\_conditions with no conditions under the Require \<^verbatim>\<open>all\<close>.
\<close>

theorem incomplete_check_finding_counterexample:
  "CheckRule exampleEnv
     (zeroRule\<lparr>r_Check := zeroCheck\<lparr>c_Type := ''missing_fields'', c_Fields := []\<rparr>\<rparr>)
     (mkConfig [(''model'', VString ''gpt-4'')]) \<noteq> None \<and>
   CheckRule exampleEnv
     (zeroRule\<lparr>r_Check := zeroCheck\<lparr>c_Type := ''missing_field'', c_Field := []\<rparr>\<rparr>)
     (mkConfig [(''model'', VString ''gpt-4'')]) \<noteq> None \<and>
   CheckRule exampleEnv
     (zeroRule\<lparr>r_Check := zeroCheck\<lparr>c_Type := ''combined_conditions'', c_Conditions := [],
                                     c_Require := ''all''\<rparr>\<rparr>)
     (mkConfig [(''model'', VString ''gpt-4'')]) \<noteq> None"
  by (simp add: CheckRule_def makeFinding_def checkMissingFields_def checkMissingField_def
        checkCombinedConditions_def HasField_def mkConfig_def Let_def)

subsection \<open>combined\_conditions\<close>

lemma conditionLoop_iff:
  "conditionLoop env condition vs \<longleftrightarrow> (\<exists>v \<in> set vs. operatorHolds env condition v)"
  by (induction vs) (auto simp: operatorHolds_def split: option.splits)

lemma checkCondition_satisfied:
  "checkCondition env condition config = satisfied env config condition"
  by (auto simp: checkCondition_def satisfied_def Let_def conditionLoop_iff)

lemma countConditions_filter:
  "countConditions env config conditions (k, locs) =
     (k + length (filter (satisfied env config) conditions),
      locs @ map cond_Parameter (filter (satisfied env config) conditions))"
  by (induction conditions arbitrary: k locs) (simp_all add: checkCondition_satisfied)

text \<open>
  C6. For a combined\_conditions rule, let \<open>n\<close> be the number of declared conditions
  and \<open>k\<close> the number of those satisfied by some candidate of their parameter. The
  rule yields a finding exactly when Require is \<^verbatim>\<open>all\<close> and \<open>k = n\<close>, or
  \<^verbatim>\<open>at_least_two\<close> and \<open>k \<ge> 2\<close>, or \<^verbatim>\<open>both\<close> and \<open>k = 2\<close>, or \<^verbatim>\<open>any\<close> and
  \<open>k \<ge> 1\<close>; the location of the finding is the parameter names of the satisfied
  conditions, in their order, joined by a comma and a space.
\<close>

theorem combined_conditions_aggregate:
  assumes "c_Type (r_Check rule) = ''combined_conditions''"
  shows "CheckRule env rule config =
     (let conditions = c_Conditions (r_Check rule);
          met = filter (satisfied env config) conditions;
          n = length conditions;
          k = length met;
          require = c_Require (r_Check rule)
      in if (require = ''all'' \<and> k = n) \<or> (require = ''at_least_two'' \<and> k \<ge> 2) \<or>
            (require = ''both'' \<and> k = 2) \<or> (require = ''any'' \<and> k \<ge> 1)
         then Some \<lparr> f_RuleID = r_ID rule, f_Name = r_Name rule,
                      f_Severity = r_Severity rule, f_Category = r_Category rule,
                      f_Description = r_Description rule,
                      f_Location = Join (map cond_Parameter met) '', '',
                      f_Recommendation = r_Recommendation rule,
                      f_References = r_References rule \<rparr>
         else None)"
  using assms
  by (simp add: CheckRule_def checkCombinedConditions_def countConditions_filter
        makeFinding_def Let_def Suc_le_eq)

text \<open>
  The fourth scenario of the specification: three conditions, all satisfied. Under
  \<^verbatim>\<open>at_least_two\<close> the finding lists the three names; under \<^verbatim>\<open>both\<close> there is no
  finding, and under \<^verbatim>\<open>all\<close> there is one.
\<close>

lemma riskyParams_all_satisfied: "filter (satisfied exampleEnv riskyConfig) (c_Conditions (r_Check riskyParams)) = c_Conditions (r_Check riskyParams)"
  by (simp add: riskyParams_def riskyConfig_def satisfied_def operatorHolds_def toFloat_def
        exampleEnv_def f64_gt_def GetAllFieldValues_def mkConfig_def)

theorem combined_conditions_aggregate_witness:
  "map_option f_Location (CheckRule exampleEnv riskyParams riskyConfig) = Some ''temperature, top_p, top_k'' \<and>
   CheckRule exampleEnv (riskyParams\<lparr>r_Check := (r_Check riskyParams)\<lparr>c_Require := ''both''\<rparr>\<rparr>) riskyConfig = None \<and>
   CheckRule exampleEnv (riskyParams\<lparr>r_Check := (r_Check riskyParams)\<lparr>c_Require := ''all''\<rparr>\<rparr>) riskyConfig \<noteq> None"
proof -
  have ty: "c_Type (r_Check riskyParams) = ''combined_conditions''"
    by (simp add: riskyParams_def)
  have ty2: "c_Type (r_Check (riskyParams\<lparr>r_Check := (r_Check riskyParams)\<lparr>c_Require := r\<rparr>\<rparr>)) = ''combined_conditions''" for r
    by (simp add: riskyParams_def)
  show ?thesis
    by (simp add: combined_conditions_aggregate[OF ty] combined_conditions_aggregate[OF ty2] riskyParams_all_satisfied Let_def)
       (simp add: riskyParams_def)
qed

subsection \<open>numeric\_range on candidates that are not numbers\<close>

lemma numericLoop_non_numeric:
  "\<forall>v \<in> set vs. \<not> isNumeric v \<Longrightarrow> numericLoop env param check vs = (False, [])"
proof (induction vs)
  case Nil
  show ?case by simp
next
  case (Cons v vs)
  then show ?case by (cases v) simp_all
qed

lemma checkSingleNumeric_non_numeric:
  "\<forall>v \<in> set (GetAllFieldValues config param). \<not> isNumeric v \<Longrightarrow>
   checkSingleNumeric env param check config = (False, [])"
  by (simp add: checkSingleNumeric_def Let_def numericLoop_non_numeric)

lemma numericParams_non_numeric:
  "\<forall>param \<in> set ps. \<forall>v \<in> set (GetAllFieldValues config param). \<not> isNumeric v \<Longrightarrow>
   numericParams env check config ps = (False, [])"
  by (induction ps) (simp_all add: checkSingleNumeric_non_numeric)

lemma checkNumericRange_non_numeric:
  assumes "\<forall>param \<in> set (namedParameters (r_Check rule)).
             \<forall>v \<in> set (GetAllFieldValues config param). \<not> isNumeric v"
  shows "checkNumericRange env rule config = (False, [])"
proof (cases "c_Parameter (r_Check rule) = []")
  case True
  then have "\<forall>param \<in> set (c_Parameters (r_Check rule)).
               \<forall>v \<in> set (GetAllFieldValues config param). \<not> isNumeric v"
    using assms by (simp add: namedParameters_def)
  then show ?thesis
    using True by (simp add: checkNumericRange_def numericParams_non_numeric)
next
  case False
  then have "\<forall>v \<in> set (GetAllFieldValues config (c_Parameter (r_Check rule))). \<not> isNumeric v"
    using assms by (simp add: namedParameters_def)
  then show ?thesis
    using False by (simp add: checkNumericRange_def checkSingleNumeric_non_numeric)
qed

text \<open>Only the candidates of a numeric type take part in the loop.\<close>

lemma numericLoop_filter_numeric:
  "numericLoop env param check vs = numericLoop env param check (filter isNumeric vs)"
proof (induction vs)
  case Nil
  show ?case by simp
next
  case (Cons v vs)
  then show ?case by (cases v) auto
qed

lemma scalar_not_numeric: "isString v \<or> isBoolean v \<or> v = VNil \<Longrightarrow> \<not> isNumeric v"
  by (cases v) simp_all

text \<open>
  C7. Type safety of numeric\_range: on a configuration in which every candidate value
  of the named parameter, or of each of the named parameters, is a string, a boolean or
  null, a numeric\_range rule yields no finding. (\<open>checkNumericRange_non_numeric\<close>
  above gives the same for every candidate that is not of a numeric type.)
\<close>

theorem numeric_range_skips_non_numeric:
  assumes "c_Type (r_Check rule) = ''numeric_range''"
    and "\<forall>param \<in> set (namedParameters (r_Check rule)).
           \<forall>v \<in> set (GetAllFieldValues config param). isString v \<or> isBoolean v \<or> v = VNil"
  shows "CheckRule env rule config = None"
proof -
  have "\<forall>param \<in> set (namedParameters (r_Check rule)).
          \<forall>v \<in> set (GetAllFieldValues config param). \<not> isNumeric v"
    using assms(2) scalar_not_numeric by blast
  then have "checkNumericRange env rule config = (False, [])"
    by (rule checkNumericRange_non_numeric)
  then show ?thesis
    using assms(1) by (simp add: CheckRule_def makeFinding_None)
qed

theorem numeric_range_skips_non_numeric_witness:
  "GetAllFieldValues
     (mkConfig [(''temperature'', VString ''1.5''),
                (''fallback'', VMap [(''temperature'', VBool True)]),
                (''other'', VMap [(''temperature'', VNil)])]) ''temperature''
     = [VString ''1.5'', VBool True, VNil] \<and>
   CheckRule exampleEnv
     (zeroRule\<lparr>r_Check := zeroCheck\<lparr>c_Type := ''numeric_range'', c_Parameter := ''temperature'',
                                     c_Min := Finite 0, c_Max := Finite 1\<rparr>\<rparr>)
     (mkConfig [(''temperature'', VString ''1.5''),
                (''fallback'', VMap [(''temperature'', VBool True)]),
                (''other'', VMap [(''temperature'', VNil)])]) = None"
proof
  show vals: "GetAllFieldValues
     (mkConfig [(''temperature'', VString ''1.5''),
                (''fallback'', VMap [(''temperature'', VBool True)]),
                (''other'', VMap [(''temperature'', VNil)])]) ''temperature''
     = [VString ''1.5'', VBool True, VNil]"
    by (simp add: GetAllFieldValues_def mkConfig_def)
  show "CheckRule exampleEnv
     (zeroRule\<lparr>r_Check := zeroCheck\<lparr>c_Type := ''numeric_range'', c_Parameter := ''temperature'',
                                     c_Min := Finite 0, c_Max := Finite 1\<rparr>\<rparr>)
     (mkConfig [(''temperature'', VString ''1.5''),
                (''fallback'', VMap [(''temperature'', VBool True)]),
                (''other'', VMap [(''temperature'', VNil)])]) = None"
    by (rule numeric_range_skips_non_numeric) (simp_all add: namedParameters_def vals)
qed

subsection \<open>stop\_sequence\_complexity\<close>

lemma anyLongItem_iff:
  "anyLongItem maxLength items \<longleftrightarrow>
     (\<exists>item \<in> set items. case item of VString str \<Rightarrow> int (length str) > maxLength | _ \<Rightarrow> False)"
  by (induction items) (auto split: val.splits)

lemma stopSequenceLoop_iff:
  "stopSequenceLoop check vs \<longleftrightarrow> (\<exists>v \<in> set vs. tooComplex check v)"
proof (induction vs)
  case Nil
  show ?case by simp
next
  case (Cons v vs)
  then show ?case
    by (cases v) (auto simp: tooComplex_def anyLongItem_iff)
qed

text \<open>
  C8, as the code has it. A stop\_sequence\_complexity rule yields a finding, at the
  named field, exactly when some candidate value of that field is too complex: a
  sequence longer than a positive MaxSequences, a sequence with a string element longer
  than a positive MaxLength, or a single string longer than a positive MaxLength. A
  bound that is zero or negative is not applied.
\<close>

theorem stop_sequence_positive_bounds:
  assumes "c_Type (r_Check rule) = ''stop_sequence_complexity''"
  shows "CheckRule env rule config =
     (if \<exists>v \<in> set (GetAllFieldValues config (c_Field (r_Check rule))). tooComplex (r_Check rule) v
      then Some \<lparr> f_RuleID = r_ID rule, f_Name = r_Name rule,
                   f_Severity = r_Severity rule, f_Category = r_Category rule,
                   f_Description = r_Description rule,
                   f_Location = c_Field (r_Check rule),
                   f_Recommendation = r_Recommendation rule,
                   f_References = r_References rule \<rparr>
      else None)"
  using assms
  by (simp add: CheckRule_def checkStopSequenceComplexity_def stopSequenceLoop_iff
        makeFinding_def Let_def)

theorem stop_sequence_positive_bounds_witness:
  "map_option f_Location
     (CheckRule exampleEnv
        (zeroRule\<lparr>r_Check := zeroCheck\<lparr>c_Type := ''stop_sequence_complexity'', c_Field := ''stop'',
                                        c_MaxSequences := 2, c_MaxLength := 10\<rparr>\<rparr>)
        (mkConfig [(''stop'', VSeq [VString ''END'', VString ''STOP'', VString ''###''])]))
     = Some ''stop'' \<and>
   CheckRule exampleEnv
        (zeroRule\<lparr>r_Check := zeroCheck\<lparr>c_Type := ''stop_sequence_complexity'', c_Field := ''stop'',
                                        c_MaxSequences := 4, c_MaxLength := 10\<rparr>\<rparr>)
        (mkConfig [(''stop'', VSeq [VString ''END'', VString ''STOP'', VString ''###''])])
     = None"
  by (simp add: stop_sequence_positive_bounds tooComplex_def GetAllFieldValues_def mkConfig_def)

text \<open>
  With MaxSequences = 0 the candidate \<^verbatim>\<open>["END"]\<close> is a sequence longer than the
  bound, and the rule yields no finding.
\<close>

theorem stop_sequence_zero_bound_counterexample:
  "GetAllFieldValues (mkConfig [(''stop'', VSeq [VString ''END''])]) ''stop'' = [VSeq [VString ''END'']] \<and>
   int (length [VString ''END'']) >
     c_MaxSequences (zeroCheck\<lparr>c_Type := ''stop_sequence_complexity'', c_Field := ''stop'',
                               c_MaxSequences := 0, c_MaxLength := 0\<rparr>) \<and>
   CheckRule exampleEnv
     (zeroRule\<lparr>r_Check := zeroCheck\<lparr>c_Type := ''stop_sequence_complexity'', c_Field := ''stop'',
                                     c_MaxSequences := 0, c_MaxLength := 0\<rparr>\<rparr>)
     (mkConfig [(''stop'', VSeq [VString ''END''])]) = None"
  by (simp add: CheckRule_def makeFinding_def checkStopSequenceComplexity_def
        GetAllFieldValues_def mkConfig_def Let_def)

subsection \<open>pattern\_match on listed fields\<close>

lemma anyPattern_iff:
  "anyPattern env patterns str \<longleftrightarrow> (\<exists>pattern \<in> set patterns. MatchString env pattern str)"
  by (induction patterns) auto

lemma matchValues_iff:
  "matchValues env patterns vs \<longleftrightarrow>
     (\<exists>str. VString str \<in> set vs \<and> (\<exists>pattern \<in> set patterns. MatchString env pattern str))"
proof (induction vs)
  case Nil
  show ?case by simp
next
  case (Cons v vs)
  then show ?case by (cases v) (auto simp: anyPattern_iff)
qed

lemma matchFields_iff:
  "fst (matchFields env patterns config fs) \<longleftrightarrow>
     (\<exists>field \<in> set fs. matchValues env patterns (GetAllFieldValues config field))"
  by (induction fs) auto

lemma not_isString: "\<not> isString v \<Longrightarrow> v \<noteq> VString str"
  by (cases v) simp_all

text \<open>
  C10. For a pattern\_match rule with a non-empty Fields list, a finding arises exactly
  from a candidate of a listed field that is a string and that some pattern matches.
  So where no candidate of the listed fields is a string (each is a number, a boolean,
  null, a sequence or a mapping), the rule yields no finding, whatever the patterns
  match.
\<close>

theorem pattern_match_tests_strings_only:
  assumes "c_Type (r_Check rule) = ''pattern_match''" and "r_Fields rule \<noteq> []"
  shows "(CheckRule env rule config \<noteq> None \<longleftrightarrow>
            (\<exists>field \<in> set (r_Fields rule).
               \<exists>str. VString str \<in> set (GetAllFieldValues config field) \<and>
                 (\<exists>pattern \<in> set (c_Patterns (r_Check rule)). MatchString env pattern str))) \<and>
         ((\<forall>field \<in> set (r_Fields rule).
             \<forall>v \<in> set (GetAllFieldValues config field). \<not> isString v)
            \<longrightarrow> CheckRule env rule config = None)"
proof -
  have iff: "CheckRule env rule config \<noteq> None \<longleftrightarrow>
            (\<exists>field \<in> set (r_Fields rule).
               \<exists>str. VString str \<in> set (GetAllFieldValues config field) \<and>
                 (\<exists>pattern \<in> set (c_Patterns (r_Check rule)). MatchString env pattern str))"
    using assms
    by (simp add: CheckRule_def makeFinding_None checkPatternMatch_def matchFields_iff
          matchValues_iff)
  moreover have "CheckRule env rule config = None"
    if "\<forall>field \<in> set (r_Fields rule). \<forall>v \<in> set (GetAllFieldValues config field). \<not> isString v"
    using that iff not_isString by blast
  ultimately show ?thesis by blast
qed

text \<open>
  The pattern \<^verbatim>\<open>1000\<close> matches the text \<^verbatim>\<open>1000\<close>, and the integer 1000 under the
  listed field gives no finding.
\<close>

theorem pattern_match_tests_strings_only_witness:
  "GetAllFieldValues (mkConfig [(''max_tokens'', VInt 1000)]) ''max_tokens'' = [VInt 1000] \<and>
   MatchString exampleEnv ''1000'' ''1000'' \<and>
   CheckRule exampleEnv
     (zeroRule\<lparr>r_Check := zeroCheck\<lparr>c_Type := ''pattern_match'', c_Patterns := [''1000'']\<rparr>,
               r_Fields := [''max_tokens'']\<rparr>)
     (mkConfig [(''max_tokens'', VInt 1000)]) = None"
proof (intro conjI)
  show vals: "GetAllFieldValues (mkConfig [(''max_tokens'', VInt 1000)]) ''max_tokens'' = [VInt 1000]"
    by (simp add: GetAllFieldValues_def mkConfig_def)
  show "MatchString exampleEnv ''1000'' ''1000''"
    by (simp add: exampleEnv_def)
  have "\<forall>field \<in> set (r_Fields (zeroRule\<lparr>r_Check := zeroCheck\<lparr>c_Type := ''pattern_match'', c_Patterns := [''1000'']\<rparr>,
               r_Fields := [''max_tokens'']\<rparr>)).
          \<forall>v \<in> set (GetAllFieldValues (mkConfig [(''max_tokens'', VInt 1000)]) field). \<not> isString v"
    by (simp add: vals)
  then show "CheckRule exampleEnv
     (zeroRule\<lparr>r_Check := zeroCheck\<lparr>c_Type := ''pattern_match'', c_Patterns := [''1000'']\<rparr>,
               r_Fields := [''max_tokens'']\<rparr>)
     (mkConfig [(''max_tokens'', VInt 1000)]) = None"
    using pattern_match_tests_strings_only[where env = exampleEnv
        and rule = "zeroRule\<lparr>r_Check := zeroCheck\<lparr>c_Type := ''pattern_match'', c_Patterns := [''1000'']\<rparr>,
               r_Fields := [''max_tokens'']\<rparr>"
        and config = "mkConfig [(''max_tokens'', VInt 1000)]"]
    by simp
qed

subsection \<open>The findings of a scan\<close>

lemma scanLoop_map_filter:
  "scanLoop env rs config findings =
     findings @ List.map_filter (\<lambda>rule. CheckRule env rule config) rs"
  by (induction rs arbitrary: findings) (simp_all add: List.map_filter_simps split: option.splits)

lemma ScanConfig_map_filter:
  "ScanConfig env s config =
     List.map_filter (\<lambda>rule. CheckRule env rule config) (Rules (rules s))"
  by (simp add: ScanConfig_def scanLoop_map_filter)

subsection \<open>The evaluation on the heap runs and leaves the heap it found\<close>

lemma objAt_prefix:
  "prefix h h' \<Longrightarrow> a < length h \<Longrightarrow> objAt h' a = objAt h a"
  by (auto simp: objAt_def prefix_def nth_append)

lemma entriesAt_prefix:
  "prefix h h' \<Longrightarrow> a < length h \<Longrightarrow> entriesAt h' a = entriesAt h a"
  by (simp add: entriesAt_def objAt_prefix)

lemma configData_prefix:
  "prefix h h' \<Longrightarrow> configData h config = Some data \<Longrightarrow> configData h' config = Some data"
proof -
  assume p: "prefix h h'" and c: "configData h config = Some data"
  have "config < length h"
    using c by (auto simp: configData_def objAt_def split: if_splits)
  then show ?thesis using p c by (simp add: configData_def objAt_prefix)
qed

lemma depthOK_prefix:
  "depthOK h d a \<Longrightarrow> prefix h h' \<Longrightarrow> depthOK h' d a"
proof (induction d arbitrary: a)
  case 0
  then show ?case by simp
next
  case (Suc d)
  have a: "a < length h" using Suc.prems(1) by simp
  have len: "length h \<le> length h'" using Suc.prems(2) by (rule prefix_length_le)
  have e: "entriesAt h' a = entriesAt h a" using Suc.prems(2) a by (rule entriesAt_prefix)
  have "list_all (\<lambda>(key, v). case v of HMap nested \<Rightarrow> depthOK h d nested | _ \<Rightarrow> True)
          (entriesAt h a)" using Suc.prems(1) by simp
  then have "list_all (\<lambda>(key, v). case v of HMap nested \<Rightarrow> depthOK h' d nested | _ \<Rightarrow> True)
          (entriesAt h a)"
    using Suc.IH Suc.prems(2)
    by (auto simp: list_all_iff split: hval.splits)
  then show ?case using a len e by simp
qed

lemma depthOK_mono: "depthOK h d a \<Longrightarrow> d \<le> d' \<Longrightarrow> depthOK h d' a"
proof (induction d arbitrary: a d')
  case 0
  then show ?case by simp
next
  case (Suc d)
  then obtain e where d': "d' = Suc e" and le: "d \<le> e" by (cases d') auto
  show ?case
    using Suc.prems(1) Suc.IH[OF _ le]
    by (auto simp: d' list_all_iff split: hval.splits)
qed

lemma configOK_prefix: "configOK h d config \<Longrightarrow> prefix h h' \<Longrightarrow> configOK h' d config"
  by (auto simp: configOK_def configData_prefix depthOK_prefix split: option.splits)

lemma prefix_update_above:
  "prefix h0 h \<Longrightarrow> length h0 \<le> a \<Longrightarrow> prefix h0 (h[a := x])"
  by (auto simp: prefix_def list_update_append)

lemma appendTo_frame:
  assumes "prefix h0 h" and "owned (length h0) s"
    and "appendTo proj mk zero rt h s x = (h', s')"
  shows "prefix h0 h' \<and> owned (length h0) s'"
proof (cases "sl_len s < sl_cap s")
  case True
  then have "length h0 \<le> sl_ptr s" using assms(2) by (simp add: owned_def)
  then show ?thesis
    using assms(1,3) True by (auto simp: appendTo_def owned_def prefix_update_above)
next
  case False
  have "length h0 \<le> length h" using assms(1) by (rule prefix_length_le)
  moreover have "prefix h0 (h @ ys)" for ys using assms(1) by (auto simp: prefix_def)
  ultimately show ?thesis
    using assms(3) False by (auto simp: appendTo_def owned_def Let_def)
qed

lemma collectLoop_runs:
  assumes rec: "\<And>h1 nested vs1. prefix h0 h1 \<Longrightarrow> owned (length h0) vs1 \<Longrightarrow> ok nested \<Longrightarrow>
                  \<exists>h2 vs2. rec h1 nested vs1 = Some (h2, vs2) \<and> prefix h0 h2 \<and> owned (length h0) vs2"
    and "list_all (\<lambda>(key, v). case v of HMap nested \<Rightarrow> ok nested | _ \<Rightarrow> True) entries"
    and "prefix h0 h" and "owned (length h0) vs"
  shows "\<exists>h' vs'. collectLoop rec rt entries field h vs = Some (h', vs') \<and>
           prefix h0 h' \<and> owned (length h0) vs'"
  using assms(2-)
proof (induction entries arbitrary: h vs)
  case Nil
  then show ?case by simp
next
  case (Cons kv rest)
  obtain key v where kv: "kv = (key, v)" by (cases kv)
  obtain h1 vs1 where step: "(if key = field then appendVal rt h vs v else (h, vs)) = (h1, vs1)"
    by (cases "(if key = field then appendVal rt h vs v else (h, vs))")
  have inv1: "prefix h0 h1 \<and> owned (length h0) vs1"
  proof (cases "key = field")
    case True
    then have "appendTo valsOf ValArray HNil rt h vs v = (h1, vs1)"
      using step by (simp add: appendVal_def)
    then show ?thesis by (rule appendTo_frame[OF Cons.prems(2,3)])
  next
    case False
    then show ?thesis using step Cons.prems(2,3) by simp
  qed
  have restOK: "list_all (\<lambda>(key, v). case v of HMap nested \<Rightarrow> ok nested | _ \<Rightarrow> True) rest"
    using Cons.prems(1) by simp
  have unfold: "collectLoop rec rt (kv # rest) field h vs =
     (case v of
        HMap nested \<Rightarrow>
          (case rec h1 nested vs1 of
             None \<Rightarrow> None
           | Some (h2, vs2) \<Rightarrow> collectLoop rec rt rest field h2 vs2)
      | _ \<Rightarrow> collectLoop rec rt rest field h1 vs1)"
    unfolding kv collectLoop.simps step by simp
  show ?case
  proof (cases "\<exists>nested. v = HMap nested")
    case True
    then obtain nested where v: "v = HMap nested" by blast
    have "ok nested" using Cons.prems(1) kv v by simp
    from rec[OF conjunct1[OF inv1] conjunct2[OF inv1] this]
    obtain h2 vs2 where r: "rec h1 nested vs1 = Some (h2, vs2)"
      and inv2: "prefix h0 h2" "owned (length h0) vs2" by blast
    from Cons.IH[OF restOK inv2] obtain h' vs' where
      "collectLoop rec rt rest field h2 vs2 = Some (h', vs')" "prefix h0 h'" "owned (length h0) vs'"
      by blast
    then show ?thesis unfolding unfold using r by (simp add: v)
  next
    case False
    from Cons.IH[OF restOK conjunct1[OF inv1] conjunct2[OF inv1]] obtain h' vs' where
      "collectLoop rec rt rest field h1 vs1 = Some (h', vs')" "prefix h0 h'" "owned (length h0) vs'"
      by blast
    then show ?thesis unfolding unfold using False by (cases v) simp_all
  qed
qed

lemma collectFieldValues_h_runs:
  assumes "depthOK h0 d a" and "d \<le> fuel" and "prefix h0 h" and "owned (length h0) vs"
  shows "\<exists>h' vs'. collectFieldValues_h fuel rt h a field vs = Some (h', vs') \<and>
           prefix h0 h' \<and> owned (length h0) vs'"
  using assms
proof (induction fuel arbitrary: d a h vs)
  case 0
  then show ?case by simp
next
  case (Suc fuel)
  obtain e where d: "d = Suc e" using Suc.prems(1) by (cases d) auto
  have a: "a < length h0" using Suc.prems(1) d by simp
  have e: "entriesAt h a = entriesAt h0 a" using Suc.prems(3) a by (rule entriesAt_prefix)
  have ent: "list_all (\<lambda>(key, v). case v of HMap nested \<Rightarrow> depthOK h0 e nested | _ \<Rightarrow> True)
          (entriesAt h0 a)" using Suc.prems(1) d by simp
  have le: "e \<le> fuel" using Suc.prems(2) d by simp
  have "\<exists>h' vs'. collectLoop (\<lambda>h1 nested vs1. collectFieldValues_h fuel rt h1 nested field vs1) rt
           (entriesAt h0 a) field h vs = Some (h', vs') \<and> prefix h0 h' \<and> owned (length h0) vs'"
  proof (rule collectLoop_runs[where ok = "depthOK h0 e"])
    show "\<exists>h2 vs2. collectFieldValues_h fuel rt h1 nested field vs1 = Some (h2, vs2) \<and>
            prefix h0 h2 \<and> owned (length h0) vs2"
      if "prefix h0 h1" "owned (length h0) vs1" "depthOK h0 e nested" for h1 nested vs1
      using Suc.IH[OF that(3) le that(1,2)] .
  qed (use ent Suc.prems in auto)
  then show ?case by (simp add: e)
qed

lemma GetAllFieldValues_h_runs:
  assumes "configOK h d config" and "d \<le> fuel"
  shows "\<exists>h' vs. GetAllFieldValues_h fuel rt h config field = Some (h', vs) \<and> prefix h h'"
proof -
  obtain data where c: "configData h config = Some data" and ok: "depthOK h d data"
    using assms(1) by (auto simp: configOK_def split: option.splits)
  have "owned (length h) nilSlice" by (simp add: owned_def nilSlice_def)
  from collectFieldValues_h_runs[OF ok assms(2) _ this, of h rt field]
  show ?thesis by (auto simp: GetAllFieldValues_h_def c)
qed

lemma hasFieldLoop_runs:
  assumes rec: "\<And>nested. ok nested \<Longrightarrow> \<exists>found. rec nested = Some found"
    and "list_all (\<lambda>(key, v). case v of HMap nested \<Rightarrow> ok nested | _ \<Rightarrow> True) entries"
  shows "\<exists>found. hasFieldLoop rec entries field = Some found"
  using assms(2)
proof (induction entries)
  case Nil
  show ?case by auto
next
  case (Cons kv rest)
  obtain key v where kv: "kv = (key, v)" by (cases kv)
  from Cons obtain found where r: "hasFieldLoop rec rest field = Some found" by auto
  show ?case
  proof (cases "\<exists>nested. v = HMap nested")
    case True
    then obtain nested where v: "v = HMap nested" by blast
    then have "ok nested" using Cons.prems kv by auto
    from rec[OF this] obtain b where "rec nested = Some b" by blast
    then show ?thesis using r by (auto simp: kv v)
  next
    case False
    then show ?thesis using r by (cases v) (auto simp: kv)
  qed
qed

lemma hasFieldRecursive_h_runs:
  "depthOK h d a \<Longrightarrow> d \<le> fuel \<Longrightarrow> \<exists>found. hasFieldRecursive_h fuel h a field = Some found"
proof (induction fuel arbitrary: d a)
  case 0
  then show ?case by auto
next
  case (Suc fuel)
  obtain e where d: "d = Suc e" using Suc.prems(1) by (cases d) auto
  have ent: "list_all (\<lambda>(key, v). case v of HMap nested \<Rightarrow> depthOK h e nested | _ \<Rightarrow> True)
          (entriesAt h a)" using Suc.prems(1) d by auto
  have le: "e \<le> fuel" using Suc.prems(2) d by auto
  have "\<exists>found. hasFieldLoop (\<lambda>nested. hasFieldRecursive_h fuel h nested field)
          (entriesAt h a) field = Some found"
    by (rule hasFieldLoop_runs[where ok = "depthOK h e"]) (use Suc.IH le ent in auto)
  then show ?case by auto
qed

lemma HasField_h_runs:
  "configOK h d config \<Longrightarrow> d \<le> fuel \<Longrightarrow> \<exists>found. HasField_h fuel h config field = Some found"
  by (auto simp: configOK_def HasField_h_def hasFieldRecursive_h_runs split: option.splits)

lemma anyFieldPresent_h_runs:
  assumes "configOK h d config" and "d \<le> fuel"
  shows "\<exists>found. anyFieldPresent_h fuel h config fs = Some found"
proof (induction fs)
  case Nil
  show ?case by auto
next
  case (Cons f fs)
  from HasField_h_runs[OF assms, of f] obtain b where "HasField_h fuel h config f = Some b"
    by blast
  then show ?case using Cons by auto
qed

lemma contentLoop_runs:
  assumes rec: "\<And>m c. ok m \<Longrightarrow> \<exists>c'. rec m c = Some c'"
    and "list_all (\<lambda>(key, v). case v of HMap nested \<Rightarrow> ok nested | _ \<Rightarrow> True) entries"
  shows "\<exists>c'. contentLoop rec h entries content = Some c'"
  using assms(2)
proof (induction entries arbitrary: content)
  case Nil
  show ?case by auto
next
  case (Cons kv rest)
  obtain key v where kv: "kv = (key, v)" by (cases kv)
  have r: "\<exists>c'. contentLoop rec h rest c = Some c'" for c using Cons by auto
  show ?case
  proof (cases "\<exists>nested. v = HMap nested")
    case True
    then obtain nested where v: "v = HMap nested" by blast
    then have "ok nested" using Cons.prems kv by auto
    from rec[OF this] obtain c1 where "rec nested content = Some c1" by blast
    then show ?thesis using r[of c1] by (auto simp: kv v)
  next
    case False
    then show ?thesis using r by (cases v) (auto simp: kv)
  qed
qed

lemma collectContent_h_runs:
  "depthOK h d a \<Longrightarrow> d \<le> fuel \<Longrightarrow> \<exists>c'. collectContent_h fuel h a content = Some c'"
proof (induction fuel arbitrary: d a content)
  case 0
  then show ?case by auto
next
  case (Suc fuel)
  obtain e where d: "d = Suc e" using Suc.prems(1) by (cases d) auto
  have ent: "list_all (\<lambda>(key, v). case v of HMap nested \<Rightarrow> depthOK h e nested | _ \<Rightarrow> True)
          (entriesAt h a)" using Suc.prems(1) d by auto
  have le: "e \<le> fuel" using Suc.prems(2) d by auto
  have "\<exists>c'. contentLoop (\<lambda>m c. collectContent_h fuel h m c) h (entriesAt h a) content = Some c'"
    by (rule contentLoop_runs[where ok = "depthOK h e"]) (use Suc.IH le ent in auto)
  then show ?case by auto
qed

lemma GetAllContent_h_runs:
  "configOK h d config \<Longrightarrow> d \<le> fuel \<Longrightarrow> \<exists>c. GetAllContent_h fuel h config = Some c"
  by (auto simp: configOK_def GetAllContent_h_def collectContent_h_runs split: option.splits)

lemma matchFields_h_runs:
  assumes "configOK h d config" and "d \<le> fuel"
  shows "\<exists>h' b loc. matchFields_h fuel rt rule config fs h = Some (h', b, loc) \<and> prefix h h'"
  using assms(1)
proof (induction fs arbitrary: h)
  case Nil
  show ?case by auto
next
  case (Cons f fs)
  from GetAllFieldValues_h_runs[OF Cons.prems assms(2), of rt f]
  obtain h1 vs where g: "GetAllFieldValues_h fuel rt h config f = Some (h1, vs)"
    and p: "prefix h h1" by blast
  have "configOK h1 d config" using Cons.prems p by (rule configOK_prefix)
  from Cons.IH[OF this] obtain h' b loc where
    "matchFields_h fuel rt rule config fs h1 = Some (h', b, loc)" "prefix h1 h'" by blast
  then show ?case using g p by (auto intro: prefix_order.trans)
qed

lemma checkPatternMatch_h_runs:
  assumes "configOK h d config" and "d \<le> fuel"
  shows "\<exists>h' b loc. checkPatternMatch_h fuel rt rule config h = Some (h', b, loc) \<and> prefix h h'"
proof (cases "sl_len (hr_Fields rule) > 0")
  case True
  then show ?thesis using matchFields_h_runs[OF assms] by (auto simp: checkPatternMatch_h_def)
next
  case False
  from GetAllContent_h_runs[OF assms] obtain c where "GetAllContent_h fuel h config = Some c"
    by blast
  then show ?thesis using False by (auto simp: checkPatternMatch_h_def)
qed

lemma checkSingleNumeric_h_runs:
  assumes "configOK h d config" and "d \<le> fuel"
  shows "\<exists>h' b loc. checkSingleNumeric_h fuel rt param check config h = Some (h', b, loc) \<and>
           prefix h h'"
proof -
  from GetAllFieldValues_h_runs[OF assms, of rt param]
  obtain h1 vs where g: "GetAllFieldValues_h fuel rt h config param = Some (h1, vs)"
    and p: "prefix h h1" by blast
  obtain b loc where "numericLoop_h rt param check (elems valsOf h1 vs) = (b, loc)"
    by (cases "numericLoop_h rt param check (elems valsOf h1 vs)")
  then show ?thesis using g p by (auto simp: checkSingleNumeric_h_def)
qed

lemma numericParams_h_runs:
  assumes "configOK h d config" and "d \<le> fuel"
  shows "\<exists>h' b loc. numericParams_h fuel rt check config ps h = Some (h', b, loc) \<and> prefix h h'"
  using assms(1)
proof (induction ps arbitrary: h)
  case Nil
  show ?case by auto
next
  case (Cons p ps)
  from checkSingleNumeric_h_runs[OF Cons.prems assms(2), of rt p check]
  obtain h1 b1 loc1 where g: "checkSingleNumeric_h fuel rt p check config h = Some (h1, b1, loc1)"
    and p: "prefix h h1" by blast
  have "configOK h1 d config" using Cons.prems p by (rule configOK_prefix)
  from Cons.IH[OF this] obtain h' b loc where
    "numericParams_h fuel rt check config ps h1 = Some (h', b, loc)" "prefix h1 h'" by blast
  then show ?case using g p by (auto intro: prefix_order.trans)
qed

lemma checkNumericRange_h_runs:
  assumes "configOK h d config" and "d \<le> fuel"
  shows "\<exists>h' b loc. checkNumericRange_h fuel rt rule config h = Some (h', b, loc) \<and> prefix h h'"
  using checkSingleNumeric_h_runs[OF assms] numericParams_h_runs[OF assms]
  by (auto simp: checkNumericRange_h_def)

lemma checkCondition_h_runs:
  assumes "configOK h d config" and "d \<le> fuel"
  shows "\<exists>h' b. checkCondition_h fuel rt condition config h = Some (h', b) \<and> prefix h h'"
proof -
  from GetAllFieldValues_h_runs[OF assms, of rt "hcond_Parameter condition"]
  obtain h1 vs where g: "GetAllFieldValues_h fuel rt h config (hcond_Parameter condition) = Some (h1, vs)"
    and p: "prefix h h1" by blast
  then show ?thesis by (auto simp: checkCondition_h_def)
qed

lemma countConditions_h_runs:
  assumes "configOK h0 d config" and "d \<le> fuel"
    and "prefix h0 h" and "owned (length h0) locs"
  shows "\<exists>h' n' locs'. countConditions_h fuel rt config cs h (n, locs) = Some (h', n', locs') \<and>
           prefix h0 h'"
  using assms(3,4)
proof (induction cs arbitrary: h n locs)
  case Nil
  then show ?case by auto
next
  case (Cons c cs)
  have ok: "configOK h d config" using assms(1) Cons.prems(1) by (rule configOK_prefix)
  from checkCondition_h_runs[OF ok assms(2), of rt c]
  obtain h1 met where g: "checkCondition_h fuel rt c config h = Some (h1, met)"
    and p: "prefix h h1" by blast
  have p1: "prefix h0 h1" using Cons.prems(1) p by (rule prefix_order.trans)
  show ?case
  proof (cases met)
    case True
    obtain h2 locs1 where a: "appendStr rt h1 locs (hcond_Parameter c) = (h2, locs1)"
      by (cases "appendStr rt h1 locs (hcond_Parameter c)")
    then have "appendTo strsOf StrArray [] rt h1 locs (hcond_Parameter c) = (h2, locs1)"
      by (auto simp: appendStr_def)
    then have inv: "prefix h0 h2 \<and> owned (length h0) locs1"
      by (rule appendTo_frame[OF p1 Cons.prems(2)])
    from Cons.IH[OF conjunct1[OF inv] conjunct2[OF inv]] show ?thesis
      using g True a by auto
  next
    case False
    from Cons.IH[OF p1 Cons.prems(2)] show ?thesis using g False by auto
  qed
qed

lemma checkCombinedConditions_h_runs:
  assumes "configOK h d config" and "d \<le> fuel"
  shows "\<exists>h' b loc. checkCombinedConditions_h fuel rt rule config h = Some (h', b, loc) \<and>
           prefix h h'"
proof -
  have "owned (length h) nilSlice" by (auto simp: owned_def nilSlice_def)
  from countConditions_h_runs[OF assms _ this, of h rt "elems condsOf h (hc_Conditions (hr_Check rule))" 0]
  obtain h1 n locs where
    "countConditions_h fuel rt config (elems condsOf h (hc_Conditions (hr_Check rule))) h (0, nilSlice)
       = Some (h1, n, locs)" "prefix h h1" by auto
  then show ?thesis by (auto simp: checkCombinedConditions_h_def Let_def)
qed

lemma fieldCheckFields_h_runs:
  assumes "configOK h d config" and "d \<le> fuel"
  shows "\<exists>h' b loc. fieldCheckFields_h fuel rt rule config fs h = Some (h', b, loc) \<and> prefix h h'"
  using assms(1)
proof (induction fs arbitrary: h)
  case Nil
  show ?case by auto
next
  case (Cons f fs)
  from GetAllFieldValues_h_runs[OF Cons.prems assms(2), of rt f]
  obtain h1 vs where g: "GetAllFieldValues_h fuel rt h config f = Some (h1, vs)"
    and p: "prefix h h1" by blast
  have "configOK h1 d config" using Cons.prems p by (rule configOK_prefix)
  from Cons.IH[OF this] obtain h' b loc where
    "fieldCheckFields_h fuel rt rule config fs h1 = Some (h', b, loc)" "prefix h1 h'" by blast
  then show ?case using g p by (auto intro: prefix_order.trans)
qed

lemma checkStopSequenceComplexity_h_runs:
  assumes "configOK h d config" and "d \<le> fuel"
  shows "\<exists>h' b loc. checkStopSequenceComplexity_h fuel rt rule config h = Some (h', b, loc) \<and>
           prefix h h'"
proof -
  from GetAllFieldValues_h_runs[OF assms, of rt "hc_Field (hr_Check rule)"]
  obtain h1 vs where "GetAllFieldValues_h fuel rt h config (hc_Field (hr_Check rule)) = Some (h1, vs)"
    and "prefix h h1" by blast
  then show ?thesis by (auto simp: checkStopSequenceComplexity_h_def Let_def)
qed

lemma writing_runs:
  "\<exists>h' b loc. r = Some (h', b, loc) \<and> prefix h h' \<Longrightarrow>
   \<exists>h' res. writing rule r = Some (h', res) \<and> prefix h h'"
  by (auto simp: writing_def)

lemma reading_runs:
  "\<exists>res. r = Some res \<Longrightarrow> \<exists>h' res. reading rule h r = Some (h', res) \<and> prefix h h'"
  by (auto simp: reading_def)

lemma CheckRule_h_runs:
  assumes "configOK h d config" and "d \<le> fuel"
  shows "\<exists>h' res. CheckRule_h fuel rt rule config h = Some (h', res) \<and> prefix h h'"
proof -
  have r1: "\<exists>res. checkMissingField_h fuel rule config h = Some res"
    using HasField_h_runs[OF assms, of "hc_Field (hr_Check rule)"]
    by (auto simp: checkMissingField_h_def Let_def)
  have r2: "\<exists>res. checkFieldExists_h fuel rule config h = Some res"
    using HasField_h_runs[OF assms, of "hc_Field (hr_Check rule)"]
    by (auto simp: checkFieldExists_h_def Let_def)
  have r3: "\<exists>res. checkMissingFields_h fuel rule config h = Some res"
    using anyFieldPresent_h_runs[OF assms, of "elems strsOf h (hc_Fields (hr_Check rule))"]
    by (auto simp: checkMissingFields_h_def)
  have r4: "\<exists>res. checkConditionalMissing_h fuel rule config h = Some res"
    using anyFieldPresent_h_runs[OF assms, of "elems strsOf h (hc_HasAny (hr_Check rule))"]
          anyFieldPresent_h_runs[OF assms, of "elems strsOf h (hc_MissingAll (hr_Check rule))"]
    by (auto simp: checkConditionalMissing_h_def)
  show ?thesis
    unfolding CheckRule_h_def Let_def
    using writing_runs[OF checkPatternMatch_h_runs[OF assms]]
          writing_runs[OF checkNumericRange_h_runs[OF assms]]
          writing_runs[OF checkCombinedConditions_h_runs[OF assms]]
          writing_runs[OF fieldCheckFields_h_runs[OF assms], of rule rt rule]
          writing_runs[OF checkStopSequenceComplexity_h_runs[OF assms]]
          reading_runs[OF r1] reading_runs[OF r2] reading_runs[OF r3] reading_runs[OF r4]
    by (auto simp: checkFieldCheck_h_def)
qed

lemma scanLoop_h_runs:
  assumes "configOK h0 d config" and "d \<le> fuel"
    and "prefix h0 h" and "owned (length h0) fs"
  shows "\<exists>h' fs'. scanLoop_h fuel rt config rs h fs = Some (h', fs') \<and> prefix h0 h'"
  using assms(3,4)
proof (induction rs arbitrary: h fs)
  case Nil
  then show ?case by auto
next
  case (Cons r rs)
  have ok: "configOK h d config" using assms(1) Cons.prems(1) by (rule configOK_prefix)
  from CheckRule_h_runs[OF ok assms(2), of rt r]
  obtain h1 res where g: "CheckRule_h fuel rt r config h = Some (h1, res)"
    and p: "prefix h h1" by blast
  have p1: "prefix h0 h1" using Cons.prems(1) p by (rule prefix_order.trans)
  show ?case
  proof (cases res)
    case None
    from Cons.IH[OF p1 Cons.prems(2)] show ?thesis using g None by auto
  next
    case (Some finding)
    obtain h2 fs1 where a: "appendFinding rt h1 fs finding = (h2, fs1)"
      by (cases "appendFinding rt h1 fs finding")
    then have "appendTo findingsOf FindingArray zeroFinding rt h1 fs finding = (h2, fs1)"
      by (auto simp: appendFinding_def)
    then have inv: "prefix h0 h2 \<and> owned (length h0) fs1"
      by (rule appendTo_frame[OF p1 Cons.prems(2)])
    from Cons.IH[OF conjunct1[OF inv] conjunct2[OF inv]] show ?thesis
      using g Some a by auto
  qed
qed

lemma ScanConfig_h_runs:
  assumes "configOK h d config" and "d \<le> fuel" and "scannerRules h s = Some rs"
  shows "\<exists>h' fs. ScanConfig_h fuel rt s config h = Some (h', fs) \<and> prefix h h'"
proof -
  have "owned (length h) nilSlice" by (auto simp: owned_def nilSlice_def)
  from scanLoop_h_runs[OF assms(1,2) _ this, of h rt "elems rulesOf h rs"]
  show ?thesis by (auto simp: ScanConfig_h_def assms(3))
qed

lemma prefix_frame:
  "prefix h h' \<longleftrightarrow> length h \<le> length h' \<and> (\<forall>a < length h. h' ! a = h ! a)"
  by (auto simp: prefix_def nth_append intro!: exI[of _ "drop (length h) h'"] nth_equalityI)

lemma exampleHeap_ok: "configOK exampleHeap (Suc (Suc 0)) 0"
  by (simp add: configOK_def configData_def objAt_def exampleHeap_def entriesAt_def)

text \<open>
  An append to a slice that has capacity left writes into the array of that slice. So
  the theorem below rests on what the evaluator appends to: slices that start empty,
  whose arrays it allocates itself.
\<close>

lemma append_in_place_writes_the_array:
  "fst (appendStr rt [StrArray [''a'', '''']] \<lparr> sl_ptr = 0, sl_len = 1, sl_cap = 2 \<rparr> ''b'')
     = [StrArray [''a'', ''b'']]"
  by (simp add: appendStr_def appendTo_def)

text \<open>
  C9. Evaluation reads its inputs and does not change them. On a heap that holds a
  configuration behind the pointer, with enough fuel for its depth, \<open>CheckRule_h\<close>
  returns, and every object that was on the heap before the call is the same object
  after it: the configuration struct, each of its mappings, the array of each of its
  sequences, and the arrays of the lists of the rule. The same holds for the whole
  scan of \<open>ScanConfig_h\<close> over the rules of a scanner. What the evaluation adds to
  the heap are the arrays of its own accumulators.
\<close>

theorem evaluation_leaves_heap_objects:
  assumes "configOK h d config" and "d \<le> fuel"
  shows "(\<exists>h' res. CheckRule_h fuel rt rule config h = Some (h', res) \<and>
            length h \<le> length h' \<and> (\<forall>a < length h. h' ! a = h ! a)) \<and>
         (\<forall>rs. scannerRules h s = Some rs \<longrightarrow>
            (\<exists>h' fs. ScanConfig_h fuel rt s config h = Some (h', fs) \<and>
               length h \<le> length h' \<and> (\<forall>a < length h. h' ! a = h ! a)))"
  using CheckRule_h_runs[OF assms, of rt rule] ScanConfig_h_runs[OF assms, of s _ rt]
  unfolding prefix_frame by blast

text \<open>
  The first scenario of the specification on the example heap: the two candidates of
  \<^verbatim>\<open>temperature\<close> are collected into new arrays and the finding is at
  \<^verbatim>\<open>temperature\<close>; the scan adds the array of its findings.
\<close>

lemma temperatureRule_run:
  "CheckRule_h (Suc (Suc 0)) exampleRuntime temperatureRule 0 exampleHeap =
     Some (exampleHeap @
             [ValArray [HFloat64 (Finite (3/2))],
              ValArray [HFloat64 (Finite (3/2)), HFloat64 (Finite (1/2))]],
           Some \<lparr> hf_RuleID = ''TEMP_001'', hf_Name = ''High Temperature'',
                   hf_Severity = ''HIGH'', hf_Category = [], hf_Description = [],
                   hf_Location = ''temperature'', hf_Recommendation = [],
                   hf_References = \<lparr> sl_ptr = 4, sl_len = 1, sl_cap = 1 \<rparr> \<rparr>)"
  by (simp add: CheckRule_h_def temperatureRule_def writing_def makeFinding_h_def
        checkNumericRange_h_def checkSingleNumeric_h_def GetAllFieldValues_h_def
        configData_def objAt_def exampleHeap_def entriesAt_def appendVal_def appendTo_def
        nilSlice_def exampleRuntime_def elems_def f64_ne0_def f64_gt_def Let_def)

lemma exampleHeap_scanner:
  "scannerRules exampleHeap 6 = Some \<lparr> sl_ptr = 5, sl_len = 1, sl_cap = 1 \<rparr>"
  by (simp add: scannerRules_def objAt_def exampleHeap_def)

lemma exampleScan_run:
  "ScanConfig_h (Suc (Suc 0)) exampleRuntime 6 0 exampleHeap =
     Some (exampleHeap @
             [ValArray [HFloat64 (Finite (3/2))],
              ValArray [HFloat64 (Finite (3/2)), HFloat64 (Finite (1/2))],
              FindingArray
                [\<lparr> hf_RuleID = ''TEMP_001'', hf_Name = ''High Temperature'',
                   hf_Severity = ''HIGH'', hf_Category = [], hf_Description = [],
                   hf_Location = ''temperature'', hf_Recommendation = [],
                   hf_References = \<lparr> sl_ptr = 4, sl_len = 1, sl_cap = 1 \<rparr> \<rparr>]],
           \<lparr> sl_ptr = 9, sl_len = 1, sl_cap = 1 \<rparr>)"
  by (simp add: ScanConfig_h_def scannerRules_def appendFinding_def
        CheckRule_h_def temperatureRule_def writing_def makeFinding_h_def
        checkNumericRange_h_def checkSingleNumeric_h_def GetAllFieldValues_h_def
        configData_def objAt_def exampleHeap_def entriesAt_def appendVal_def appendTo_def
        nilSlice_def exampleRuntime_def elems_def f64_ne0_def f64_gt_def Let_def)

theorem evaluation_leaves_heap_objects_witness:
  "configOK exampleHeap (Suc (Suc 0)) 0 \<and>
   (\<exists>h' res. CheckRule_h (Suc (Suc 0)) exampleRuntime temperatureRule 0 exampleHeap
                 = Some (h', res) \<and>
      length exampleHeap \<le> length h' \<and> (\<forall>a < length exampleHeap. h' ! a = exampleHeap ! a)) \<and>
   (\<exists>h' fs. ScanConfig_h (Suc (Suc 0)) exampleRuntime 6 0 exampleHeap = Some (h', fs) \<and>
      length exampleHeap \<le> length h' \<and> (\<forall>a < length exampleHeap. h' ! a = exampleHeap ! a))"
  using exampleHeap_ok exampleHeap_scanner
    evaluation_leaves_heap_objects[OF exampleHeap_ok order_refl,
      where rt = exampleRuntime and rule = temperatureRule and s = 6]
  by blast

end
